theory Spec2Isabelle
  imports Main "HOL-Library.Multiset"
begin

section \<open>Data model\<close>

text \<open>
  The notebook fixes its types in the first code cell: a player is an int, a pair is a
  tuple of two players, a game is a list of two pairs, a round is a tuple of games and a
  schedule is a list of rounds. Players come from \<open>range(P)\<close>, so they are naturals.
\<close>

type_synonym player = nat
type_synonym pair = "player \<times> player"
type_synonym game = "pair \<times> pair"
type_synonym round = "game list"
type_synonym schedule = "round list"

section \<open>All pairs of players\<close>

text \<open>
  \<open>itertools.combinations(xs, 2)\<close>: every two elements of \<open>xs\<close>, in the order of
  their positions.
\<close>

fun combinations2 :: "'a list \<Rightarrow> ('a \<times> 'a) list" where
  "combinations2 [] = []"
| "combinations2 (x # xs) = map (Pair x) xs @ combinations2 xs"

text \<open>
  \<open>def all_pairs(P): return list(combinations(range(P), 2))\<close>.
  \<open>range(P)\<close> is empty for \<open>P \<le> 0\<close>.
\<close>

definition all_pairs :: "int \<Rightarrow> pair list" where
  "all_pairs P = combinations2 [0 ..< nat P]"

section \<open>Placing pairs into games\<close>

text \<open>\<open>len(set(A + B)) == 4\<close>: the two tuples hold four different players.\<close>

definition four_players :: "pair \<Rightarrow> pair \<Rightarrow> bool" where
  "four_players A B = (card (set [fst A, snd A, fst B, snd B]) = 4)"

text \<open>
  The \<open>for B in pairs\<close> loop of \<open>make_games\<close> returns at the first \<open>B\<close> whose body
  produces a result and falls off the end otherwise; \<open>first_some\<close> is that loop, the
  body being \<open>f\<close>.
\<close>

primrec first_some :: "('a \<Rightarrow> 'b option) \<Rightarrow> 'a list \<Rightarrow> 'b option" where
  "first_some f [] = None"
| "first_some f (x # xs) = (case f x of Some y \<Rightarrow> Some y | None \<Rightarrow> first_some f xs)"

lemma first_some_cong [fundef_cong]:
  "xs = ys \<Longrightarrow> (\<And>x. x \<in> set ys \<Longrightarrow> f x = g x) \<Longrightarrow> first_some f xs = first_some g ys"
  by (induction ys arbitrary: xs) (auto split: option.splits)

text \<open>
  \<open>make_games\<close>. Python's \<open>None\<close> (the function falls off the end of the loop) is
  \<open>None\<close>, a returned list \<open>gs\<close> is \<open>Some gs\<close>. \<open>[p for p in pairs if p not in game]\<close>
  drops every element equal to \<open>A\<close> or to \<open>B\<close>.
\<close>

function make_games :: "pair list \<Rightarrow> game list option" where
  "make_games pairs =
     (if length pairs < 2 then Some []
      else
        let A = pairs ! 0 in
        first_some (\<lambda>B.
          if four_players A B then
            (case make_games (filter (\<lambda>p. p \<noteq> A \<and> p \<noteq> B) pairs) of
               Some other_games \<Rightarrow> Some ((A, B) # other_games)
             | None \<Rightarrow> None)
          else None) pairs)"
  by pat_completeness auto
termination
proof (relation "measure length", goal_cases)
  case 1
  show ?case by simp
next
  case (2 pairs A B)
  then have "B \<in> set pairs" by simp
  then have "length (filter (\<lambda>p. p \<noteq> A \<and> p \<noteq> B) pairs) < length pairs"
    by (intro length_filter_less[of B]) auto
  then show ?case by simp
qed

declare make_games.simps [simp del]

section \<open>Scheduling games onto courts\<close>

text \<open>
  \<open>players(x)\<close> is the set of players in a pair, game or round, and
  \<open>disjoint(A, B)\<close> is \<open>not (A & B)\<close>.
\<close>

definition players_pair :: "pair \<Rightarrow> player set" where
  "players_pair A = {fst A, snd A}"

definition players_game :: "game \<Rightarrow> player set" where
  "players_game g = players_pair (fst g) \<union> players_pair (snd g)"

definition players_round :: "round \<Rightarrow> player set" where
  "players_round r = \<Union> (set (map players_game r))"

definition disjoint :: "player set \<Rightarrow> player set \<Rightarrow> bool" where
  "disjoint A B = (A \<inter> B = {})"

text \<open>
  The inner loop of \<open>schedule\<close>, \<open>for game in list(games)\<close>: it walks a snapshot of the
  working list, and for an accepted game appends it to \<open>round\<close> and removes its first
  occurrence from the working list (\<open>games.remove(game)\<close>). \<open>courts\<close> is a Python int.
\<close>

fun fill_round :: "int \<Rightarrow> game list \<Rightarrow> round \<Rightarrow> game list \<Rightarrow> round \<times> game list" where
  "fill_round courts [] round games = (round, games)"
| "fill_round courts (game # snapshot) round games =
     (if int (length round) < courts \<and> disjoint (players_round round) (players_game game)
      then fill_round courts snapshot (round @ [game]) (remove1 game games)
      else fill_round courts snapshot round games)"

text \<open>
  The outer loop, \<open>while games:\<close>. Nothing in the source bounds it: with \<open>courts < 1\<close> no
  game is ever placed and the loop does not end, so the model is a partial function and
  \<open>None\<close> stands for a call that does not return.
\<close>

partial_function (option) schedule_loop :: "int \<Rightarrow> game list \<Rightarrow> schedule \<Rightarrow> schedule option" where
  "schedule_loop courts games sched =
     (if games = [] then Some sched
      else case fill_round courts games [] games of
             (round, games') \<Rightarrow> schedule_loop courts games' (sched @ [round]))"

declare schedule_loop.simps [code]

definition schedule :: "game list \<Rightarrow> int \<Rightarrow> schedule option" where
  "schedule games courts = schedule_loop courts games []"

section \<open>Opponent counts and their cost\<close>

text \<open>\<open>def pairing(p1, p2): return min(p1, p2), max(p1, p2)\<close>\<close>

definition pairing :: "player \<Rightarrow> player \<Rightarrow> pair" where
  "pairing p1 p2 = (min p1 p2, max p1 p2)"

text \<open>
  \<open>opponents(games)\<close> is a \<open>Counter\<close> over
  \<open>pairing(p1, p2) for A, B in games for p1 in A for p2 in B\<close>. A \<open>Counter\<close> is a
  multiset: indexing it gives the number of occurrences, 0 for a missing key.
\<close>

definition opponents :: "game list \<Rightarrow> pair multiset" where
  "opponents games =
     mset (concat (map (\<lambda>(A, B).
        [pairing (fst A) (fst B), pairing (fst A) (snd B),
         pairing (snd A) (fst B), pairing (snd A) (snd B)]) games))"

text \<open>
  \<open>opp_difference(games, pairs, optimal=2)\<close>:
  \<open>sum(abs(opp[pair] - optimal) ** 3 for pair in pairs)\<close>. \<open>optimal\<close> is an int, as
  its default is; \<open>pickleball\<close> never passes another value.
\<close>

definition opp_difference :: "game list \<Rightarrow> pair list \<Rightarrow> int \<Rightarrow> int" where
  "opp_difference games pairs optimal =
     (let opp = opponents games
      in sum_list (map (\<lambda>pair. \<bar>int (count opp pair) - optimal\<bar> ^ 3) pairs))"

section \<open>Improvement through hillclimbing\<close>

text \<open>
  The exceptions a call of \<open>pickleball\<close> can end with: iterating over \<open>None\<close> when
  \<open>make_games\<close> found no match (\<open>TypeError\<close>), \<open>random.sample\<close> asked for two of fewer
  than two games (\<open>ValueError\<close>), and a list index out of range (\<open>IndexError\<close>).
\<close>

datatype error = TypeError | ValueError | IndexError

text \<open>
  \<open>indexes(games)\<close> returns \<open>random.sample(range(len(games)), 2), random.choice(sides)\<close>.
  The \<open>random\<close> module is not part of the repository, and \<open>pickleball\<close> has no generator
  or seed among its parameters: the draws come from the module's process-wide generator,
  seeded once when the notebook's first cell runs. Its state is modelled by the stream of
  values that \<open>indexes\<close> will return from now on; each call takes the head. What the module
  guarantees about a draw is \<open>idx_ok\<close>: two different positions of \<open>games\<close> and one
  element of \<open>sides\<close>.
\<close>

type_synonym idx = "(nat \<times> nat) \<times> (nat \<times> nat)"
type_synonym rng = "nat \<Rightarrow> idx"

definition sides :: "(nat \<times> nat) list" where
  "sides = [(0, 0), (1, 1), (0, 1), (1, 0)]"

definition idx_ok :: "nat \<Rightarrow> idx \<Rightarrow> bool" where
  "idx_ok n idx =
     (case idx of ((i, j), ab) \<Rightarrow> i < n \<and> j < n \<and> i \<noteq> j \<and> ab \<in> set sides)"

definition indexes :: "game list \<Rightarrow> rng \<Rightarrow> error + (idx \<times> rng)" where
  "indexes games rng =
     (if length games < 2 then Inl ValueError
      else Inr (rng 0, \<lambda>k. rng (Suc k)))"

text \<open>\<open>game[a]\<close> and \<open>game[a] = p\<close> on a game, a list of two pairs.\<close>

definition side :: "game \<Rightarrow> nat \<Rightarrow> pair" where
  "side g a = (if a = 0 then fst g else snd g)"

definition set_side :: "game \<Rightarrow> nat \<Rightarrow> pair \<Rightarrow> game" where
  "set_side g a p = (if a = 0 then (p, snd g) else (fst g, p))"

text \<open>
  \<open>swap(games, idx)\<close>:
  \<open>games[g1][a], games[g2][b] = games[g2][b], games[g1][a]\<close>. The right-hand side is
  read first, then the two targets are assigned from left to right. An index outside a
  list raises \<open>IndexError\<close>.
\<close>

definition swap :: "game list \<Rightarrow> idx \<Rightarrow> error + game list" where
  "swap games idx =
     (case idx of ((g1, g2), (a, b)) \<Rightarrow>
        if g1 < length games \<and> g2 < length games \<and> a < 2 \<and> b < 2 then
          let x = side (games ! g2) b;
              y = side (games ! g1) a;
              games1 = games[g1 := set_side (games ! g1) a x];
              games2 = games1[g2 := set_side (games1 ! g2) b y]
          in Inr games2
        else Inl IndexError)"

text \<open>
  The variables of the loop of \<open>pickleball\<close>: the list of games, the schedule kept so
  far and its cost.
\<close>

record hc_state =
  st_games :: "game list"
  st_sched :: schedule
  st_diff :: int

text \<open>
  One pass of the body of \<open>for _ in range(N)\<close>. The result is \<open>None\<close> when a call of
  \<open>schedule\<close> does not return, \<open>Some (Inl e)\<close> when an exception ends the pass, and the
  new variables and generator state otherwise. \<open>and\<close> evaluates its operands from left to
  right and stops at the first false one.
\<close>

definition trial :: "pair list \<Rightarrow> int \<Rightarrow> hc_state \<Rightarrow> rng \<Rightarrow> (error + hc_state \<times> rng) option" where
  "trial pairs courts st rng =
     (case indexes (st_games st) rng of
        Inl e \<Rightarrow> Some (Inl e)
      | Inr (idx, rng') \<Rightarrow>
          (case idx of ((i, j), ab) \<Rightarrow>
            (case swap (st_games st) idx of
               Inl e \<Rightarrow> Some (Inl e)
             | Inr games \<Rightarrow>
                 let diff2 = opp_difference games pairs 2;
                     revert = (case swap games idx of
                                 Inl e \<Rightarrow> Some (Inl e)
                               | Inr games' \<Rightarrow> Some (Inr (st\<lparr>st_games := games'\<rparr>, rng')))
                 in
                 if diff2 \<le> st_diff st then
                   (case schedule games courts of
                      None \<Rightarrow> None
                    | Some sched2 \<Rightarrow>
                        if length sched2 \<le> length (st_sched st)
                           \<and> card (players_game (games ! i)) = 4
                           \<and> 4 = card (players_game (games ! j))
                        then
                          (case schedule games courts of
                             None \<Rightarrow> None
                           | Some sched' \<Rightarrow>
                               Some (Inr (\<lparr>st_games = games, st_sched = sched',
                                           st_diff = diff2\<rparr>, rng')))
                        else revert)
                 else revert)))"

fun hillclimb :: "pair list \<Rightarrow> int \<Rightarrow> nat \<Rightarrow> hc_state \<Rightarrow> rng \<Rightarrow> (error + hc_state) option" where
  "hillclimb pairs courts 0 st rng = Some (Inr st)"
| "hillclimb pairs courts (Suc n) st rng =
     (case trial pairs courts st rng of
        None \<Rightarrow> None
      | Some (Inl e) \<Rightarrow> Some (Inl e)
      | Some (Inr (st', rng')) \<Rightarrow> hillclimb pairs courts n st' rng')"

text \<open>
  \<open>pickleball(P, courts, N)\<close>, with the generator state at the call as a fourth argument.
  \<open>pickleball_run\<close> gives the variables at the \<open>return\<close>; \<open>pickleball\<close> gives what is
  returned, \<open>sched\<close>. When \<open>make_games\<close> returned \<open>None\<close>, \<open>opp_difference\<close> iterates over
  it and raises \<open>TypeError\<close>. \<open>range(N)\<close> is empty for \<open>N \<le> 0\<close>.
\<close>

definition pickleball_init :: "int \<Rightarrow> int \<Rightarrow> (error + hc_state) option" where
  "pickleball_init P courts =
     (let pairs = all_pairs P in
      case make_games pairs of
        None \<Rightarrow> Some (Inl TypeError)
      | Some games \<Rightarrow>
          let diff = opp_difference games pairs 2 in
          (case schedule games courts of
             None \<Rightarrow> None
           | Some sched \<Rightarrow> Some (Inr \<lparr>st_games = games, st_sched = sched, st_diff = diff\<rparr>)))"

definition pickleball_run :: "int \<Rightarrow> int \<Rightarrow> int \<Rightarrow> rng \<Rightarrow> (error + hc_state) option" where
  "pickleball_run P courts N rng =
     (case pickleball_init P courts of
        None \<Rightarrow> None
      | Some (Inl e) \<Rightarrow> Some (Inl e)
      | Some (Inr st) \<Rightarrow> hillclimb (all_pairs P) courts (nat N) st rng)"

definition pickleball :: "int \<Rightarrow> int \<Rightarrow> int \<Rightarrow> rng \<Rightarrow> (error + schedule) option" where
  "pickleball P courts N rng =
     (case pickleball_run P courts N rng of
        None \<Rightarrow> None
      | Some (Inl e) \<Rightarrow> Some (Inl e)
      | Some (Inr st) \<Rightarrow> Some (Inr (st_sched st)))"

section \<open>The cost is zero exactly at the optimal distribution\<close>













section \<open>No match and the empty result of make_games\<close>

lemma four_players_iff: "four_players A B = distinct [fst A, snd A, fst B, snd B]"
proof -
  let ?xs = "[fst A, snd A, fst B, snd B]"
  have "(card (set ?xs) = length ?xs) = distinct ?xs"
    using card_distinct distinct_card by blast
  moreover have "length ?xs = 4" by simp
  ultimately show ?thesis unfolding four_players_def by (simp only:)
qed

lemma first_some_None_iff: "(first_some f xs = None) = (\<forall>x\<in>set xs. f x = None)"
  by (induction xs) (auto split: option.splits)

lemma first_some_SomeD: "first_some f xs = Some y \<Longrightarrow> \<exists>x\<in>set xs. f x = Some y"
  by (induction xs) (auto split: option.splits)

lemma make_games_short: "length pairs < 2 \<Longrightarrow> make_games pairs = Some []"
  by (subst make_games.simps) simp

lemma make_games_None_iff:
  "(make_games pairs = None) =
     (2 \<le> length pairs \<and>
      (\<forall>B\<in>set pairs. four_players (pairs ! 0) B \<longrightarrow>
         make_games (filter (\<lambda>p. p \<noteq> pairs ! 0 \<and> p \<noteq> B) pairs) = None))"
  by (subst make_games.simps)
     (auto simp: Let_def first_some_None_iff split: option.splits if_splits)

lemma make_games_Some_Nil_iff: "(make_games pairs = Some []) = (length pairs < 2)"
proof
  assume h: "make_games pairs = Some []"
  show "length pairs < 2"
  proof (rule ccontr)
    assume "\<not> length pairs < 2"
    with h have "first_some (\<lambda>B.
          if four_players (pairs ! 0) B then
            (case make_games (filter (\<lambda>p. p \<noteq> pairs ! 0 \<and> p \<noteq> B) pairs) of
               Some other_games \<Rightarrow> Some ((pairs ! 0, B) # other_games)
             | None \<Rightarrow> None)
          else None) pairs = Some []"
      by (subst (asm) make_games.simps) (simp add: Let_def)
    from first_some_SomeD[OF this] show False
      by (auto split: if_splits option.splits)
  qed
qed (rule make_games_short)

text \<open>
  Claim C8. \<open>make_games\<close> returns the empty list exactly when fewer than two pairs remain,
  and \<open>None\<close> exactly when at least two pairs remain and every candidate partner of the
  anchor \<open>pairs[0]\<close> has failed; \<open>None\<close> and the empty list are different values, and
  every call returns one of \<open>None\<close> and a list of games.
\<close>

theorem make_games_no_match_distinct:
  "(length pairs < 2 \<longrightarrow> make_games pairs = Some [])
   \<and> (2 \<le> length pairs
        \<and> (\<forall>B\<in>set pairs. four_players (pairs ! 0) B \<longrightarrow>
              make_games (filter (\<lambda>p. p \<noteq> pairs ! 0 \<and> p \<noteq> B) pairs) = None)
        \<longrightarrow> make_games pairs = None)
   \<and> (make_games pairs = Some [] \<longrightarrow> length pairs < 2)
   \<and> (make_games pairs = None \<longrightarrow>
        2 \<le> length pairs
        \<and> (\<forall>B\<in>set pairs. four_players (pairs ! 0) B \<longrightarrow>
              make_games (filter (\<lambda>p. p \<noteq> pairs ! 0 \<and> p \<noteq> B) pairs) = None))
   \<and> (None :: game list option) \<noteq> Some []
   \<and> (make_games pairs = None \<or> (\<exists>gs. make_games pairs = Some gs))"
proof -
  have a: "length pairs < 2 \<longrightarrow> make_games pairs = Some []"
    by (simp add: make_games_short)
  have b: "make_games pairs = Some [] \<longrightarrow> length pairs < 2"
    by (simp add: make_games_Some_Nil_iff)
  have c: "(make_games pairs = None) =
     (2 \<le> length pairs \<and>
      (\<forall>B\<in>set pairs. four_players (pairs ! 0) B \<longrightarrow>
         make_games (filter (\<lambda>p. p \<noteq> pairs ! 0 \<and> p \<noteq> B) pairs) = None))"
    by (rule make_games_None_iff)
  have d: "make_games pairs = None \<or> (\<exists>gs. make_games pairs = Some gs)"
    by (cases "make_games pairs") simp_all
  from a b c d show ?thesis by blast
qed

theorem make_games_no_match_distinct_witness:
  "make_games [(0, 1)] = Some [] \<and> make_games [(0, 1), (0, 2), (1, 2)] = None"
  using make_games_no_match_distinct [of "[(0, 1)]"]
        make_games_no_match_distinct [of "[(0, 1), (0, 2), (1, 2)]"]
  by (simp add: four_players_iff)

section \<open>What schedule guarantees\<close>

definition disjoint_round :: "round \<Rightarrow> bool" where
  "disjoint_round r =
     (\<forall>i<length r. \<forall>j<length r. i \<noteq> j \<longrightarrow>
        disjoint (players_game (r ! i)) (players_game (r ! j)))"

lemma disjoint_round_Nil: "disjoint_round []"
  by (simp add: disjoint_round_def)

lemma disjoint_commute: "disjoint A B = disjoint B A"
  by (auto simp: disjoint_def)

lemma disjoint_players_round:
  "disjoint (players_round r) X \<Longrightarrow> i < length r \<Longrightarrow> disjoint (players_game (r ! i)) X"
proof -
  assume d: "disjoint (players_round r) X" and i: "i < length r"
  from i have "r ! i \<in> set r" by simp
  then have "players_game (r ! i) \<subseteq> players_round r"
    unfolding players_round_def by auto
  with d show ?thesis by (auto simp: disjoint_def)
qed

lemma disjoint_round_snoc:
  assumes "disjoint_round r" and "disjoint (players_round r) (players_game g)"
  shows "disjoint_round (r @ [g])"
  unfolding disjoint_round_def
proof (intro allI impI)
  fix i j
  assume i: "i < length (r @ [g])" and j: "j < length (r @ [g])" and ne: "i \<noteq> j"
  consider "i < length r" "j < length r" | "i < length r" "j = length r"
    | "i = length r" "j < length r"
    using i j ne by (auto simp: less_Suc_eq)
  then show "disjoint (players_game ((r @ [g]) ! i)) (players_game ((r @ [g]) ! j))"
  proof cases
    case 1
    with assms(1) ne show ?thesis by (simp add: disjoint_round_def nth_append)
  next
    case 2
    with disjoint_players_round[OF assms(2)] show ?thesis by (simp add: nth_append)
  next
    case 3
    with disjoint_players_round[OF assms(2)] show ?thesis
      by (simp add: nth_append disjoint_commute)
  qed
qed

lemma fill_round_mset:
  "mset snapshot \<subseteq># mset games \<Longrightarrow> fill_round courts snapshot round games = (r', g')
   \<Longrightarrow> mset r' + mset g' = mset round + mset games"
proof (induction snapshot arbitrary: round games)
  case Nil
  then show ?case by simp
next
  case (Cons game snapshot)
  from Cons.prems(1) have mem: "game \<in># mset games"
    and sub: "mset snapshot \<subseteq># mset games - {#game#}"
    by (simp_all add: insert_subset_eq_iff)
  show ?case
  proof (cases "int (length round) < courts
                \<and> disjoint (players_round round) (players_game game)")
    case True
    with Cons.prems(2)
    have "fill_round courts snapshot (round @ [game]) (remove1 game games) = (r', g')"
      by simp
    moreover from sub have "mset snapshot \<subseteq># mset (remove1 game games)" by simp
    ultimately have "mset r' + mset g' = mset (round @ [game]) + mset (remove1 game games)"
      by (rule Cons.IH[rotated])
    with mem show ?thesis by simp
  next
    case False
    with Cons.prems(2) have "fill_round courts snapshot round games = (r', g')"
      by auto
    moreover from sub have "mset snapshot \<subseteq># mset games"
      by (meson diff_subset_eq_self subset_mset.order_trans)
    ultimately show ?thesis by (rule Cons.IH[rotated])
  qed
qed

lemma fill_round_round:
  "fill_round courts snapshot round games = (r', g') \<Longrightarrow>
   disjoint_round round \<Longrightarrow> int (length round) \<le> courts \<or> round = [] \<Longrightarrow>
   disjoint_round r' \<and> (int (length r') \<le> courts \<or> r' = [])
   \<and> length round \<le> length r' \<and> length g' \<le> length games"
proof (induction snapshot arbitrary: round games)
  case Nil
  then show ?case by auto
next
  case (Cons game snapshot)
  show ?case
  proof (cases "int (length round) < courts
                \<and> disjoint (players_round round) (players_game game)")
    case True
    with Cons.prems(1)
    have run: "fill_round courts snapshot (round @ [game]) (remove1 game games) = (r', g')"
      by simp
    from True Cons.prems(2) have "disjoint_round (round @ [game])"
      by (simp add: disjoint_round_snoc)
    moreover from True have "int (length (round @ [game])) \<le> courts \<or> round @ [game] = []"
      by simp
    ultimately have "disjoint_round r' \<and> (int (length r') \<le> courts \<or> r' = [])
       \<and> length (round @ [game]) \<le> length r' \<and> length g' \<le> length (remove1 game games)"
      by (rule Cons.IH[OF run])
    moreover have "length (remove1 game games) \<le> length games"
      by (simp add: length_remove1)
    ultimately show ?thesis by auto
  next
    case False
    with Cons.prems(1) have "fill_round courts snapshot round games = (r', g')"
      by auto
    from Cons.IH[OF this Cons.prems(2,3)] show ?thesis .
  qed
qed

lemma fill_round_first:
  assumes "1 \<le> courts" and "fill_round courts (g # rest) [] (g # rest) = (r', g')"
  shows "r' \<noteq> [] \<and> length g' < length (g # rest)"
proof -
  from assms have run: "fill_round courts rest [g] rest = (r', g')"
    by (simp add: players_round_def disjoint_def)
  have "disjoint_round [g]" by (simp add: disjoint_round_def)
  moreover from assms(1) have "int (length [g]) \<le> courts \<or> [g] = []" by simp
  ultimately have "length [g] \<le> length r' \<and> length g' \<le> length rest"
    using fill_round_round[OF run] by blast
  then show ?thesis by auto
qed

lemma schedule_loop_total:
  assumes "1 \<le> courts"
  shows "\<exists>res. schedule_loop courts games sched = Some res
           \<and> mset (concat res) = mset (concat sched) + mset games
           \<and> (\<forall>round\<in>set res. round \<in> set sched
                 \<or> (round \<noteq> [] \<and> int (length round) \<le> courts \<and> disjoint_round round))"
proof (induction games arbitrary: sched rule: length_induct)
  case (1 games)
  show ?case
  proof (cases games)
    case Nil
    then show ?thesis by (subst schedule_loop.simps) simp
  next
    case (Cons g rest)
    obtain r' g' where run: "fill_round courts games [] games = (r', g')"
      by (cases "fill_round courts games [] games") auto
    from fill_round_first[OF assms run[unfolded Cons]] Cons
    have ne: "r' \<noteq> []" and less: "length g' < length games" by auto
    from fill_round_mset[OF _ run] have ms: "mset r' + mset g' = mset games" by simp
    from fill_round_round[OF run] have ok: "disjoint_round r'" "int (length r') \<le> courts"
      using ne by (auto simp: disjoint_round_Nil)
    from 1 less obtain res where
      res: "schedule_loop courts g' (sched @ [r']) = Some res"
        "mset (concat res) = mset (concat (sched @ [r'])) + mset g'"
        "\<forall>round\<in>set res. round \<in> set (sched @ [r'])
                 \<or> (round \<noteq> [] \<and> int (length round) \<le> courts \<and> disjoint_round round)"
      by blast
    have "schedule_loop courts games sched = Some res"
      using Cons run res(1) by (subst schedule_loop.simps) simp
    moreover have "mset (concat res) = mset (concat sched) + mset games"
      using res(2) ms by (simp add: ac_simps)
    moreover have "\<forall>round\<in>set res. round \<in> set sched
                 \<or> (round \<noteq> [] \<and> int (length round) \<le> courts \<and> disjoint_round round)"
      using res(3) ne ok by auto
    ultimately show ?thesis by blast
  qed
qed

lemma schedule_returns:
  assumes "1 \<le> courts"
  shows "\<exists>sched. schedule games courts = Some sched"
  using schedule_loop_total[OF assms, of games "[]"] by (auto simp: schedule_def)

text \<open>
  Claim C5. For every list of games and every \<open>courts \<ge> 1\<close>, \<open>schedule\<close> returns, and in
  the rounds it returns every input game stands exactly once (the rounds, laid end to
  end, are a rearrangement of the input), any two games of a round have disjoint sets
  of players, and a round has at least one and at most \<open>courts\<close> games.
\<close>

theorem schedule_places_every_game:
  assumes "1 \<le> courts"
  shows "\<exists>sched. schedule games courts = Some sched
           \<and> mset (concat sched) = mset games
           \<and> (\<forall>round\<in>set sched.
                 round \<noteq> [] \<and> int (length round) \<le> courts
                 \<and> (\<forall>i<length round. \<forall>j<length round. i \<noteq> j \<longrightarrow>
                       disjoint (players_game (round ! i)) (players_game (round ! j))))"
  using schedule_loop_total[OF assms, of games "[]"]
  unfolding schedule_def disjoint_round_def by auto

theorem schedule_places_every_game_witness:
  "(1::int) \<le> 2
   \<and> schedule [((0, 1), (2, 3)), ((0, 2), (1, 3)), ((4, 5), (6, 7))] 2
       = Some [[((0, 1), (2, 3)), ((4, 5), (6, 7))], [((0, 2), (1, 3))]]"
proof -
  have one: "(1::int) \<le> 2" by simp
  have "schedule [((0, 1), (2, 3)), ((0, 2), (1, 3)), ((4, 5), (6, 7))] 2
       = Some [[((0, 1), (2, 3)), ((4, 5), (6, 7))], [((0, 2), (1, 3))]]"
    by code_simp
  with one schedule_places_every_game[OF one, of "[((0, 1), (2, 3)), ((0, 2), (1, 3)), ((4, 5), (6, 7))]"]
  show ?thesis by simp
qed

section \<open>The caller's list is left as it was\<close>

text \<open>
  \<open>schedule\<close> once more, with the list objects it touches in a store, to see what it does
  to the caller's list. A store is the sequence of list objects allocated so far and a
  reference is a position in it. \<open>games = list(games)\<close> allocates a new object holding
  a copy and rebinds the local name to it; \<open>games.remove(game)\<close> updates the object the
  local name refers to. The snapshot \<open>list(games)\<close> of the \<open>for\<close> loop and the list
  \<open>round\<close> are fresh objects nothing else refers to; they stay values. \<open>schedule\<close> never
  assigns into a game.
\<close>

type_synonym store = "game list list"
type_synonym ref = nat

definition new_list :: "store \<Rightarrow> game list \<Rightarrow> ref \<times> store" where
  "new_list h xs = (length h, h @ [xs])"

definition list_remove :: "store \<Rightarrow> ref \<Rightarrow> game \<Rightarrow> store" where
  "list_remove h r x = h[r := remove1 x (h ! r)]"

fun fill_round_st :: "int \<Rightarrow> game list \<Rightarrow> round \<Rightarrow> ref \<Rightarrow> store \<Rightarrow> round \<times> store" where
  "fill_round_st courts [] round games h = (round, h)"
| "fill_round_st courts (game # snapshot) round games h =
     (if int (length round) < courts \<and> disjoint (players_round round) (players_game game)
      then fill_round_st courts snapshot (round @ [game]) games (list_remove h games game)
      else fill_round_st courts snapshot round games h)"

partial_function (option) schedule_loop_st ::
    "int \<Rightarrow> ref \<Rightarrow> store \<Rightarrow> schedule \<Rightarrow> (schedule \<times> store) option" where
  "schedule_loop_st courts games h sched =
     (if h ! games = [] then Some (sched, h)
      else case fill_round_st courts (h ! games) [] games h of
             (round, h') \<Rightarrow> schedule_loop_st courts games h' (sched @ [round]))"

declare schedule_loop_st.simps [code]

definition schedule_st :: "store \<Rightarrow> ref \<Rightarrow> int \<Rightarrow> (schedule \<times> store) option" where
  "schedule_st h games courts =
     (case new_list h (h ! games) of
        (games', h') \<Rightarrow> schedule_loop_st courts games' h' [])"

lemma fill_round_st_eq:
  "w < length h \<Longrightarrow>
   fill_round_st courts snapshot round w h =
     (case fill_round courts snapshot round (h ! w) of (r, g) \<Rightarrow> (r, h[w := g]))"
  by (induction snapshot arbitrary: round h) (auto simp: list_remove_def)

lemma schedule_loop_st_sound:
  assumes "schedule_loop_st courts w h sched = Some rh"
  shows "w < length h \<longrightarrow>
         snd rh = h[w := []] \<and> schedule_loop courts (h ! w) sched = Some (fst rh)"
proof (induction rule: schedule_loop_st.raw_induct [OF _ assms])
  case (1 loop courts w h sched rh)
  show ?case
  proof
    assume w: "w < length h"
    show "snd rh = h[w := []] \<and> schedule_loop courts (h ! w) sched = Some (fst rh)"
    proof (cases "h ! w = []")
      case True
      with 1(2) have rh: "rh = (sched, h)" by simp
      from True have "schedule_loop courts (h ! w) sched = Some sched"
        using schedule_loop.simps[of courts "h ! w" sched] by simp
      moreover from True have "h[w := []] = h"
        by (metis list_update_id)
      ultimately show ?thesis using rh by simp
    next
      case False
      obtain r g where fr: "fill_round courts (h ! w) [] (h ! w) = (r, g)"
        by (cases "fill_round courts (h ! w) [] (h ! w)") auto
      with False 1(2) w have "loop courts w (h[w := g]) (sched @ [r]) = Some rh"
        by (simp add: fill_round_st_eq)
      from 1(1)[OF this] w
      have "snd rh = h[w := []]" "schedule_loop courts g (sched @ [r]) = Some (fst rh)"
        by simp_all
      moreover have "schedule_loop courts (h ! w) sched = schedule_loop courts g (sched @ [r])"
        using schedule_loop.simps[of courts "h ! w" sched] False fr by simp
      ultimately show ?thesis by simp
    qed
  qed
qed

lemma schedule_loop_st_complete:
  assumes "schedule_loop courts games sched = Some res"
  shows "\<forall>h w. w < length h \<and> h ! w = games \<longrightarrow>
           schedule_loop_st courts w h sched = Some (res, h[w := []])"
proof (induction rule: schedule_loop.raw_induct [OF _ assms])
  case (1 loop courts games sched res)
  show ?case
  proof (intro allI impI)
    fix h :: store and w
    assume hw: "w < length h \<and> h ! w = games"
    show "schedule_loop_st courts w h sched = Some (res, h[w := []])"
    proof (cases "games = []")
      case True
      with 1(2) have "res = sched" by simp
      moreover from True hw have "h[w := []] = h"
        by (metis list_update_id)
      moreover from True hw have "schedule_loop_st courts w h sched = Some (sched, h)"
        using schedule_loop_st.simps[of courts w h sched] by simp
      ultimately show ?thesis by simp
    next
      case False
      obtain r g where fr: "fill_round courts games [] games = (r, g)"
        by (cases "fill_round courts games [] games") auto
      with False 1(2) have "loop courts g (sched @ [r]) = Some res" by simp
      from 1(1)[OF this] hw
      have "schedule_loop_st courts w (h[w := g]) (sched @ [r]) = Some (res, h[w := []])"
        by (metis length_list_update list_update_overwrite nth_list_update_eq)
      moreover have "schedule_loop_st courts w h sched
                       = schedule_loop_st courts w (h[w := g]) (sched @ [r])"
        using schedule_loop_st.simps[of courts w h sched] False fr hw
        by (simp add: fill_round_st_eq)
      ultimately show ?thesis by simp
    qed
  qed
qed

lemma schedule_st_eq:
  "schedule_st h a courts
     = map_option (\<lambda>sched. (sched, h @ [[]])) (schedule (h ! a) courts)"
proof (cases "schedule (h ! a) courts")
  case None
  have "schedule_st h a courts = None"
  proof (rule ccontr)
    assume "schedule_st h a courts \<noteq> None"
    then obtain rh where "schedule_loop_st courts (length h) (h @ [h ! a]) [] = Some rh"
      by (auto simp: schedule_st_def new_list_def)
    from schedule_loop_st_sound[OF this] None show False
      by (simp add: schedule_def nth_append)
  qed
  with None show ?thesis by simp
next
  case (Some res)
  then have "schedule_loop courts (h ! a) [] = Some res" by (simp add: schedule_def)
  from schedule_loop_st_complete[OF this]
  have "schedule_loop_st courts (length h) (h @ [h ! a]) [] = Some (res, (h @ [h ! a])[length h := []])"
    by simp
  then have "schedule_st h a courts = Some (res, h @ [[]])"
    by (simp add: schedule_st_def new_list_def)
  with Some show ?thesis by simp
qed

text \<open>
  Claim C9. \<open>schedule\<close> does not change its input: when a call returns, the caller's list
  object holds the same games in the same order as before the call, as does every other
  object that existed before the call; the only object changed is the function's own
  copy. The schedule returned is the one the function on values computes, and for
  \<open>courts \<ge> 1\<close> the call does return.
\<close>

theorem schedule_keeps_its_input:
  assumes "games < length h"
  shows "(\<forall>sched h'. schedule_st h games courts = Some (sched, h') \<longrightarrow>
            h' ! games = h ! games \<and> take (length h) h' = h
            \<and> schedule (h ! games) courts = Some sched)
         \<and> (1 \<le> courts \<longrightarrow> (\<exists>sched h'. schedule_st h games courts = Some (sched, h')))"
proof (intro conjI allI impI)
  fix sched h'
  assume run: "schedule_st h games courts = Some (sched, h')"
  then have h': "h' = h @ [[]]" and s: "schedule (h ! games) courts = Some sched"
    by (auto simp: schedule_st_eq)
  from h' assms show "h' ! games = h ! games" by (simp add: nth_append)
  from h' show "take (length h) h' = h" by simp
  from s show "schedule (h ! games) courts = Some sched" .
next
  assume "1 \<le> courts"
  from schedule_returns[OF this, of "h ! games"]
  obtain sched where "schedule (h ! games) courts = Some sched" by blast
  then show "\<exists>sched h'. schedule_st h games courts = Some (sched, h')"
    by (simp add: schedule_st_eq)
qed

theorem schedule_keeps_its_input_witness:
  "(0::nat) < length ([[((0, 1), (2, 3)), ((0, 2), (1, 3)), ((4, 5), (6, 7))]] :: store)
   \<and> schedule_st [[((0, 1), (2, 3)), ((0, 2), (1, 3)), ((4, 5), (6, 7))]] 0 2
       = Some ([[((0, 1), (2, 3)), ((4, 5), (6, 7))], [((0, 2), (1, 3))]],
               [[((0, 1), (2, 3)), ((0, 2), (1, 3)), ((4, 5), (6, 7))], []])
   \<and> ([[((0, 1), (2, 3)), ((0, 2), (1, 3)), ((4, 5), (6, 7))], []] :: store) ! 0
       = [[((0, 1), (2, 3)), ((0, 2), (1, 3)), ((4, 5), (6, 7))]] ! 0"
proof -
  let ?h = "[[((0, 1), (2, 3)), ((0, 2), (1, 3)), ((4, 5), (6, 7))]] :: store"
  have len: "(0::nat) < length ?h" by simp
  have run: "schedule_st ?h 0 2
       = Some ([[((0, 1), (2, 3)), ((4, 5), (6, 7))], [((0, 2), (1, 3))]],
               [[((0, 1), (2, 3)), ((0, 2), (1, 3)), ((4, 5), (6, 7))], []])"
    by code_simp
  from schedule_keeps_its_input[OF len, of 2] run len show ?thesis by simp
qed

section \<open>Hillclimbing keeps the pairs and never makes things worse\<close>

text \<open>The pairs held by a list of games, each as often as it occurs.\<close>

definition pairs_of :: "game list \<Rightarrow> pair multiset" where
  "pairs_of games = mset (concat (map (\<lambda>g. [fst g, snd g]) games))"

lemma less_2_cases_nat: "(a::nat) < 2 \<Longrightarrow> a = 0 \<or> a = 1"
  by auto

lemma swap_length: "swap games idx = Inr games' \<Longrightarrow> length games' = length games"
  by (auto simp: swap_def Let_def split: prod.splits if_splits)

lemma swap_returns:
  assumes "idx_ok (length games) idx"
  shows "\<exists>games'. swap games idx = Inr games'"
  using assms by (auto simp: swap_def idx_ok_def sides_def Let_def split: prod.splits)

lemma swap_unfold:
  assumes "g1 < length games" "g2 < length games" "a < 2" "b < 2"
  shows "swap games ((g1, g2), (a, b)) =
           Inr (games[g1 := set_side (games ! g1) a (side (games ! g2) b),
                      g2 := set_side ((games[g1 := set_side (games ! g1) a (side (games ! g2) b)]) ! g2)
                              b (side (games ! g1) a)])"
  using assms by (simp add: swap_def Let_def)

lemma swap_involution:
  assumes "swap games idx = Inr games'"
  shows "swap games' idx = Inr games"
proof -
  obtain g1 g2 a b where idx: "idx = ((g1, g2), (a, b))" by (metis surj_pair)
  from assms idx have rng: "g1 < length games" "g2 < length games" "a < 2" "b < 2"
    by (auto simp: swap_def split: if_splits)
  define G where "G = games ! g1"
  define H0 where "H0 = games ! g2"
  define G1 where "G1 = set_side G a (side H0 b)"
  define H where "H = (games[g1 := G1]) ! g2"
  define G2 where "G2 = set_side H b (side G a)"
  from assms have g': "games' = games[g1 := G1, g2 := G2]"
    unfolding idx swap_unfold[OF rng] G_def H0_def G1_def H_def G2_def by simp
  from rng g' have rng': "g1 < length games'" "g2 < length games'" by simp_all
  have ab: "(a = 0 \<or> a = 1) \<and> (b = 0 \<or> b = 1)"
    using rng(3,4) by (auto dest!: less_2_cases_nat)
  show ?thesis
  proof (cases "g1 = g2")
    case False
    then have H: "H = H0" by (simp add: H_def H0_def)
    from False rng have at1: "games' ! g1 = G1" and at2: "games' ! g2 = G2"
      by (simp_all add: g')
    have back1: "set_side G1 a (side G2 b) = G"
      using ab by (auto simp: G1_def G2_def H side_def set_side_def)
    have back2: "set_side G2 b (side G1 a) = H0"
      using ab by (auto simp: G1_def G2_def H side_def set_side_def)
    from False rng' have "(games'[g1 := G]) ! g2 = G2"
      by (simp add: at2)
    with back1 back2 have "swap games' idx = Inr (games'[g1 := G, g2 := H0])"
      unfolding idx swap_unfold[OF rng' rng(3,4)] at1 at2 by simp
    moreover have "games'[g1 := G, g2 := H0] = games"
    proof (rule nth_equalityI)
      show "length (games'[g1 := G, g2 := H0]) = length games" by (simp add: g')
    next
      fix i
      assume "i < length (games'[g1 := G, g2 := H0])"
      then have "i < length games" by (simp add: g')
      with rng show "games'[g1 := G, g2 := H0] ! i = games ! i"
        unfolding g' G_def H0_def by (auto simp: nth_list_update)
    qed
    ultimately show ?thesis by simp
  next
    case True
    with rng have H: "H = G1" and H0: "H0 = G" by (simp_all add: H_def H0_def G_def)
    from True rng have geq: "games' = games[g1 := G2]" by (simp add: g')
    from rng have at: "games' ! g1 = G2" by (simp add: geq)
    with True have at2: "games' ! g2 = G2" by simp
    have restore: "set_side (set_side G2 a (side G2 b)) b (side G2 a) = G"
      using ab by (auto simp: G1_def G2_def H H0 side_def set_side_def)
    from rng' have "(games'[g1 := set_side G2 a (side G2 b)]) ! g1 = set_side G2 a (side G2 b)"
      by simp
    with restore True have "swap games' idx = Inr (games'[g1 := G])"
      unfolding idx swap_unfold[OF rng' rng(3,4)] at at2 using rng' by simp
    moreover have "games'[g1 := G] = games"
      by (simp add: geq G_def)
    ultimately show ?thesis by simp
  qed
qed

lemma pairs_of_update:
  "i < length xs \<Longrightarrow>
   pairs_of (xs[i := v]) + {#fst (xs ! i), snd (xs ! i)#} = pairs_of xs + {#fst v, snd v#}"
proof (induction xs arbitrary: i)
  case Nil
  then show ?case by simp
next
  case (Cons x xs)
  show ?case
  proof (cases i)
    case 0
    then show ?thesis by (simp add: pairs_of_def)
  next
    case (Suc k)
    with Cons.prems have "k < length xs" by simp
    from Cons.IH[OF this] Suc show ?thesis
      by (simp add: pairs_of_def add_mset_commute)
  qed
qed

lemma swap_pairs_of:
  assumes "swap games idx = Inr games'"
  shows "pairs_of games' = pairs_of games"
proof -
  obtain g1 g2 a b where idx: "idx = ((g1, g2), (a, b))" by (metis surj_pair)
  from assms idx have rng: "g1 < length games" "g2 < length games" "a < 2" "b < 2"
    by (auto simp: swap_def split: if_splits)
  define G where "G = games ! g1"
  define x where "x = side (games ! g2) b"
  define G1 where "G1 = set_side G a x"
  define games1 where "games1 = games[g1 := G1]"
  define H where "H = games1 ! g2"
  define G2 where "G2 = set_side H b (side G a)"
  from assms idx rng have g': "games' = games1[g2 := G2]"
    by (simp add: swap_def Let_def G_def x_def G1_def games1_def H_def G2_def)
  from rng have len1: "g2 < length games1" by (simp add: games1_def)
  have e1: "pairs_of games1 + {#fst G, snd G#} = pairs_of games + {#fst G1, snd G1#}"
    unfolding games1_def G_def by (rule pairs_of_update[OF rng(1)])
  have e2: "pairs_of games' + {#fst H, snd H#} = pairs_of games1 + {#fst G2, snd G2#}"
    unfolding g' H_def by (rule pairs_of_update[OF len1])
  have bal: "{#fst G1, snd G1#} + {#fst G2, snd G2#} = {#fst G, snd G#} + {#fst H, snd H#}"
  proof (cases "g1 = g2")
    case True
    with rng have "H = G1" by (simp add: H_def games1_def)
    moreover from True have "x = side G b" by (simp add: x_def G_def)
    ultimately show ?thesis using rng(3,4)
      by (auto simp: G1_def G2_def side_def set_side_def dest!: less_2_cases_nat)
  next
    case False
    then have "H = games ! g2" by (simp add: H_def games1_def)
    then have "x = side H b" by (simp add: x_def)
    then show ?thesis using rng(3,4)
      by (auto simp: G1_def G2_def side_def set_side_def dest!: less_2_cases_nat)
  qed
  have "pairs_of games' + ({#fst G, snd G#} + {#fst H, snd H#})
          = pairs_of games + ({#fst G1, snd G1#} + {#fst G2, snd G2#})"
  proof -
    have "pairs_of games' + ({#fst G, snd G#} + {#fst H, snd H#})
            = (pairs_of games' + {#fst H, snd H#}) + {#fst G, snd G#}"
      by (simp only: ac_simps)
    also have "\<dots> = (pairs_of games1 + {#fst G, snd G#}) + {#fst G2, snd G2#}"
      by (simp only: e2 ac_simps)
    also have "\<dots> = pairs_of games + ({#fst G1, snd G1#} + {#fst G2, snd G2#})"
      by (simp only: e1 ac_simps)
    finally show ?thesis .
  qed
  with bal show ?thesis by simp
qed

text \<open>
  What the variables of the loop satisfy between two passes: \<open>diff\<close> is the cost of the
  current games and \<open>sched\<close> is their schedule.
\<close>

definition consistent :: "pair list \<Rightarrow> int \<Rightarrow> hc_state \<Rightarrow> bool" where
  "consistent pairs courts st =
     (st_diff st = opp_difference (st_games st) pairs 2
      \<and> schedule (st_games st) courts = Some (st_sched st))"

lemma trial_step:
  assumes "trial pairs courts st rng = Some (Inr (st', rng'))"
  shows "length (st_sched st') \<le> length (st_sched st)
         \<and> st_diff st' \<le> st_diff st
         \<and> pairs_of (st_games st') = pairs_of (st_games st)
         \<and> length (st_games st') = length (st_games st)
         \<and> rng' = (\<lambda>k. rng (Suc k))
         \<and> (consistent pairs courts st \<longrightarrow> consistent pairs courts st')"
proof -
  from assms have two: "\<not> length (st_games st) < 2"
    by (auto simp: trial_def indexes_def split: if_splits)
  obtain i j ab where idx: "rng 0 = ((i, j), ab)" by (metis surj_pair)
  from assms two idx obtain games where sw: "swap (st_games st) ((i, j), ab) = Inr games"
    by (cases "swap (st_games st) ((i, j), ab)") (auto simp: trial_def indexes_def)
  define revert where "revert = (case swap games ((i, j), ab) of
       Inl e \<Rightarrow> Some (Inl e)
     | Inr games' \<Rightarrow> Some (Inr (st\<lparr>st_games := games'\<rparr>, \<lambda>k. rng (Suc k))))"
  have rev: "revert = Some (Inr (st, \<lambda>k. rng (Suc k)))"
    using swap_involution[OF sw] by (simp add: revert_def)
  define diff2 where "diff2 = opp_difference games pairs 2"
  show ?thesis
  proof (cases "diff2 \<le> st_diff st")
    case False
    with assms two idx sw have "revert = Some (Inr (st', rng'))"
      by (simp add: trial_def indexes_def Let_def revert_def diff2_def)
    with rev show ?thesis by simp
  next
    case True
    with assms two idx sw obtain sched2 where s2: "schedule games courts = Some sched2"
      by (cases "schedule games courts")
         (auto simp: trial_def indexes_def Let_def diff2_def)
    show ?thesis
    proof (cases "length sched2 \<le> length (st_sched st)
                  \<and> card (players_game (games ! i)) = 4
                  \<and> 4 = card (players_game (games ! j))")
      case False
      with True assms two idx sw s2 have "revert = Some (Inr (st', rng'))"
        by (auto simp: trial_def indexes_def Let_def revert_def diff2_def split: if_splits)
      with rev show ?thesis by simp
    next
      case acc: True
      with True assms two idx sw s2
      have "st' = \<lparr>st_games = games, st_sched = sched2, st_diff = diff2\<rparr>"
        and "rng' = (\<lambda>k. rng (Suc k))"
        by (simp_all add: trial_def indexes_def Let_def diff2_def)
      with True acc s2 swap_pairs_of[OF sw] swap_length[OF sw] show ?thesis
        by (simp add: consistent_def diff2_def)
    qed
  qed
qed

lemma trial_returns:
  assumes "1 \<le> courts" and "2 \<le> length (st_games st)"
    and "idx_ok (length (st_games st)) (rng 0)"
  shows "\<exists>st'. trial pairs courts st rng = Some (Inr (st', \<lambda>k. rng (Suc k)))"
proof -
  obtain i j ab where idx: "rng 0 = ((i, j), ab)" by (metis surj_pair)
  from swap_returns[OF assms(3)] idx obtain games
    where sw: "swap (st_games st) ((i, j), ab) = Inr games" by auto
  from schedule_returns[OF assms(1)] obtain sched2
    where s2: "schedule games courts = Some sched2" by blast
  from assms(2) idx sw s2 swap_involution[OF sw] show ?thesis
    by (simp add: trial_def indexes_def Let_def)
qed

lemma hillclimb_step:
  assumes "hillclimb pairs courts n st rng = Some (Inr st')"
  shows "length (st_sched st') \<le> length (st_sched st)
         \<and> st_diff st' \<le> st_diff st
         \<and> pairs_of (st_games st') = pairs_of (st_games st)
         \<and> length (st_games st') = length (st_games st)
         \<and> (consistent pairs courts st \<longrightarrow> consistent pairs courts st')"
  using assms
proof (induction n arbitrary: st rng)
  case 0
  then show ?case by simp
next
  case (Suc n)
  from Suc.prems obtain st1 rng1 where
    t: "trial pairs courts st rng = Some (Inr (st1, rng1))"
    and h: "hillclimb pairs courts n st1 rng1 = Some (Inr st')"
    by (auto split: option.splits sum.splits)
  from trial_step[OF t] Suc.IH[OF h] show ?case by auto
qed

lemma hillclimb_returns:
  assumes "1 \<le> courts" and "n = 0 \<or> 2 \<le> length (st_games st)"
    and "\<forall>k<n. idx_ok (length (st_games st)) (rng k)"
  shows "\<exists>st'. hillclimb pairs courts n st rng = Some (Inr st')"
  using assms(2,3)
proof (induction n arbitrary: st rng)
  case 0
  then show ?case by simp
next
  case (Suc n)
  then have two: "2 \<le> length (st_games st)" and ok0: "idx_ok (length (st_games st)) (rng 0)"
    by auto
  from trial_returns[where rng = rng and st = st, OF assms(1) two ok0] obtain st1
    where t: "trial pairs courts st rng = Some (Inr (st1, \<lambda>k. rng (Suc k)))" by blast
  from trial_step[OF t] have len: "length (st_games st1) = length (st_games st)" by simp
  with two Suc.prems(2)
  have "\<exists>st'. hillclimb pairs courts n st1 (\<lambda>k. rng (Suc k)) = Some (Inr st')"
    by (intro Suc.IH) auto
  with t show ?case by simp
qed

lemma pickleball_run_cases:
  assumes "pickleball_run P courts N rng = Some (Inr st)"
  obtains games0 sched0 where
    "make_games (all_pairs P) = Some games0"
    "schedule games0 courts = Some sched0"
    "hillclimb (all_pairs P) courts (nat N)
       \<lparr>st_games = games0, st_sched = sched0,
        st_diff = opp_difference games0 (all_pairs P) 2\<rparr> rng = Some (Inr st)"
  using assms
  by (auto simp: pickleball_run_def pickleball_init_def Let_def
           split: option.splits sum.splits)

lemma pickleball_run_returns:
  assumes "make_games (all_pairs P) = Some games0" and "1 \<le> courts"
    and "N \<le> 0 \<or> 2 \<le> length games0"
    and "\<forall>k<nat N. idx_ok (length games0) (rng k)"
  shows "\<exists>st. pickleball_run P courts N rng = Some (Inr st)"
proof -
  from schedule_returns[OF assms(2)] obtain sched0
    where s0: "schedule games0 courts = Some sched0" by blast
  define st0 where "st0 = \<lparr>st_games = games0, st_sched = sched0,
        st_diff = opp_difference games0 (all_pairs P) 2\<rparr>"
  from assms(3) have "nat N = 0 \<or> 2 \<le> length (st_games st0)"
    by (auto simp: st0_def)
  moreover from assms(4) have "\<forall>k<nat N. idx_ok (length (st_games st0)) (rng k)"
    by (simp add: st0_def)
  ultimately have "\<exists>st. hillclimb (all_pairs P) courts (nat N) st0 rng = Some (Inr st)"
    by (rule hillclimb_returns[OF assms(2)])
  with assms(1) s0 show ?thesis
    by (simp add: pickleball_run_def pickleball_init_def Let_def st0_def)
qed

text \<open>
  Claim C1. Whenever \<open>pickleball\<close> returns, after any number \<open>N\<close> of trials, the schedule
  it returns has at most as many rounds as the initial
  \<open>schedule(make_games(all_pairs(P)), courts)\<close>, and the cost \<open>diff\<close> it ends with, which is
  the cost of the games it ends with, is at most the cost of the initial games. And it does
  return when \<open>make_games\<close> found games, \<open>courts \<ge> 1\<close>, and the draws are what
  \<open>random.sample\<close> and \<open>random.choice\<close> give (with at least two games to draw from when
  there is a trial at all).
\<close>

theorem pickleball_never_worse:
  "(\<forall>st. pickleball_run P courts N rng = Some (Inr st) \<longrightarrow>
      (\<exists>games0 sched0.
          make_games (all_pairs P) = Some games0
          \<and> schedule games0 courts = Some sched0
          \<and> pickleball P courts N rng = Some (Inr (st_sched st))
          \<and> length (st_sched st) \<le> length sched0
          \<and> st_diff st = opp_difference (st_games st) (all_pairs P) 2
          \<and> st_diff st \<le> opp_difference games0 (all_pairs P) 2))
   \<and> (\<forall>games0. make_games (all_pairs P) = Some games0 \<and> 1 \<le> courts
          \<and> (N \<le> 0 \<or> 2 \<le> length games0)
          \<and> (\<forall>k<nat N. idx_ok (length games0) (rng k))
        \<longrightarrow> (\<exists>st. pickleball_run P courts N rng = Some (Inr st)))"
proof (intro conjI allI impI)
  fix st
  assume run: "pickleball_run P courts N rng = Some (Inr st)"
  then obtain games0 sched0 where
    g0: "make_games (all_pairs P) = Some games0"
    and s0: "schedule games0 courts = Some sched0"
    and hc: "hillclimb (all_pairs P) courts (nat N)
       \<lparr>st_games = games0, st_sched = sched0,
        st_diff = opp_difference games0 (all_pairs P) 2\<rparr> rng = Some (Inr st)"
    by (rule pickleball_run_cases)
  have "consistent (all_pairs P) courts \<lparr>st_games = games0, st_sched = sched0,
        st_diff = opp_difference games0 (all_pairs P) 2\<rparr>"
    using s0 by (simp add: consistent_def)
  with hillclimb_step[OF hc]
  have "length (st_sched st) \<le> length sched0"
    and "st_diff st \<le> opp_difference games0 (all_pairs P) 2"
    and "st_diff st = opp_difference (st_games st) (all_pairs P) 2"
    by (simp_all add: consistent_def)
  moreover from run have "pickleball P courts N rng = Some (Inr (st_sched st))"
    by (simp add: pickleball_def)
  ultimately show "\<exists>games0 sched0.
          make_games (all_pairs P) = Some games0
          \<and> schedule games0 courts = Some sched0
          \<and> pickleball P courts N rng = Some (Inr (st_sched st))
          \<and> length (st_sched st) \<le> length sched0
          \<and> st_diff st = opp_difference (st_games st) (all_pairs P) 2
          \<and> st_diff st \<le> opp_difference games0 (all_pairs P) 2"
    using g0 s0 by blast
next
  fix games0
  assume "make_games (all_pairs P) = Some games0 \<and> 1 \<le> courts
          \<and> (N \<le> 0 \<or> 2 \<le> length games0)
          \<and> (\<forall>k<nat N. idx_ok (length games0) (rng k))"
  then show "\<exists>st. pickleball_run P courts N rng = Some (Inr st)"
    using pickleball_run_returns by blast
qed

theorem pickleball_never_worse_witness:
  "pickleball_run 6 2 1 (\<lambda>k. ((1, 3), (0, 0)))
     = Some (Inr \<lparr>st_games =
          [((0, 1), 2, 3), ((0, 4), 1, 3), ((0, 3), 1, 2), ((0, 2), 1, 5),
           ((0, 5), 1, 4), ((2, 4), 3, 5), ((2, 5), 3, 4)],
          st_sched =
            [[((0, 1), 2, 3)], [((0, 4), 1, 3)], [((0, 3), 1, 2)],
             [((0, 2), 1, 5)], [((0, 5), 1, 4)], [((2, 4), 3, 5)],
             [((2, 5), 3, 4)]],
          st_diff = 16\<rparr>)
   \<and> make_games (all_pairs 6)
       = Some [((0, 1), 2, 3), ((0, 2), 1, 3), ((0, 3), 1, 2), ((0, 4), 1, 5),
               ((0, 5), 1, 4), ((2, 4), 3, 5), ((2, 5), 3, 4)]
   \<and> idx_ok 7 ((1, 3), (0, 0))
   \<and> (\<exists>sched0. schedule [((0, 1), 2, 3), ((0, 2), 1, 3), ((0, 3), 1, 2), ((0, 4), 1, 5),
                            ((0, 5), 1, 4), ((2, 4), 3, 5), ((2, 5), 3, 4)] 2 = Some sched0
          \<and> 7 \<le> length sched0)
   \<and> 16 \<le> opp_difference [((0, 1), 2, 3), ((0, 2), 1, 3), ((0, 3), 1, 2), ((0, 4), 1, 5),
                             ((0, 5), 1, 4), ((2, 4), 3, 5), ((2, 5), 3, 4)] (all_pairs 6) 2"
proof -
  let ?rng = "(\<lambda>k. ((1, 3), (0, 0))) :: rng"
  let ?g0 = "[((0, 1), 2, 3), ((0, 2), 1, 3), ((0, 3), 1, 2), ((0, 4), 1, 5),
               ((0, 5), 1, 4), ((2, 4), 3, 5), ((2, 5), 3, 4)] :: game list"
  have run: "pickleball_run 6 2 1 ?rng
     = Some (Inr \<lparr>st_games =
          [((0, 1), 2, 3), ((0, 4), 1, 3), ((0, 3), 1, 2), ((0, 2), 1, 5),
           ((0, 5), 1, 4), ((2, 4), 3, 5), ((2, 5), 3, 4)],
          st_sched =
            [[((0, 1), 2, 3)], [((0, 4), 1, 3)], [((0, 3), 1, 2)],
             [((0, 2), 1, 5)], [((0, 5), 1, 4)], [((2, 4), 3, 5)],
             [((2, 5), 3, 4)]],
          st_diff = 16\<rparr>)"
    by code_simp
  have g0: "make_games (all_pairs 6) = Some ?g0"
    by code_simp
  have ok: "idx_ok 7 ((1, 3), (0, 0))"
    by (simp add: idx_ok_def sides_def)
  from pickleball_never_worse[of 6 2 1 ?rng] run g0 ok show ?thesis
    by auto
qed

lemma pairs_of_mset: "pairs_of games = (\<Sum>g\<in>#mset games. {#fst g, snd g#})"
  by (induction games) (simp_all add: pairs_of_def)

lemma pairs_of_cong: "mset xs = mset ys \<Longrightarrow> pairs_of xs = pairs_of ys"
  by (simp add: pairs_of_mset)

lemma schedule_loop_mset:
  assumes "schedule_loop courts games sched = Some res"
  shows "mset (concat res) = mset (concat sched) + mset games"
proof (induction rule: schedule_loop.raw_induct [OF _ assms])
  case (1 loop courts games sched res)
  show ?case
  proof (cases "games = []")
    case True
    with 1(2) show ?thesis by simp
  next
    case False
    obtain r g where fr: "fill_round courts games [] games = (r, g)"
      by (cases "fill_round courts games [] games") auto
    with False 1(2) have "loop courts g (sched @ [r]) = Some res" by simp
    from 1(1)[OF this] have "mset (concat res) = mset (concat (sched @ [r])) + mset g" .
    moreover from fill_round_mset[OF _ fr] have "mset r + mset g = mset games" by simp
    ultimately show ?thesis by (simp add: ac_simps)
  qed
qed

lemma schedule_mset: "schedule games courts = Some sched \<Longrightarrow> mset (concat sched) = mset games"
  using schedule_loop_mset[of courts games "[]" sched] by (simp add: schedule_def)

text \<open>
  Claim C10. A swap only exchanges two pairs between positions: it keeps the multiset of
  the pairs held by the games, and the same swap applied again restores the list of
  games. So whenever \<open>pickleball\<close> returns, the games it ends with, and the schedule it
  returns, hold exactly the pairs of the games \<open>make_games\<close> produced, each as often.
\<close>

theorem hillclimbing_keeps_the_pairs:
  "(\<forall>games'. swap games idx = Inr games' \<longrightarrow>
        pairs_of games' = pairs_of games \<and> swap games' idx = Inr games)
   \<and> (\<forall>st. pickleball_run P courts N rng = Some (Inr st) \<longrightarrow>
        (\<exists>games0. make_games (all_pairs P) = Some games0
           \<and> pairs_of (st_games st) = pairs_of games0
           \<and> pickleball P courts N rng = Some (Inr (st_sched st))
           \<and> pairs_of (concat (st_sched st)) = pairs_of games0))"
proof (intro conjI allI impI)
  fix games'
  assume sw: "swap games idx = Inr games'"
  show "pairs_of games' = pairs_of games" by (rule swap_pairs_of[OF sw])
  show "swap games' idx = Inr games" by (rule swap_involution[OF sw])
next
  fix st
  assume run: "pickleball_run P courts N rng = Some (Inr st)"
  then obtain games0 sched0 where
    g0: "make_games (all_pairs P) = Some games0"
    and s0: "schedule games0 courts = Some sched0"
    and hc: "hillclimb (all_pairs P) courts (nat N)
       \<lparr>st_games = games0, st_sched = sched0,
        st_diff = opp_difference games0 (all_pairs P) 2\<rparr> rng = Some (Inr st)"
    by (rule pickleball_run_cases)
  have "consistent (all_pairs P) courts \<lparr>st_games = games0, st_sched = sched0,
        st_diff = opp_difference games0 (all_pairs P) 2\<rparr>"
    using s0 by (simp add: consistent_def)
  with hillclimb_step[OF hc]
  have p: "pairs_of (st_games st) = pairs_of games0"
    and s: "schedule (st_games st) courts = Some (st_sched st)"
    by (simp_all add: consistent_def)
  from schedule_mset[OF s] have "pairs_of (concat (st_sched st)) = pairs_of (st_games st)"
    by (rule pairs_of_cong)
  moreover from run have "pickleball P courts N rng = Some (Inr (st_sched st))"
    by (simp add: pickleball_def)
  ultimately show "\<exists>games0. make_games (all_pairs P) = Some games0
           \<and> pairs_of (st_games st) = pairs_of games0
           \<and> pickleball P courts N rng = Some (Inr (st_sched st))
           \<and> pairs_of (concat (st_sched st)) = pairs_of games0"
    using g0 p by simp
qed

theorem hillclimbing_keeps_the_pairs_witness:
  "swap [((0, 1), 2, 3), ((0, 2), 1, 3), ((0, 3), 1, 2)] ((0, 2), (1, 0))
     = Inr [((0, 1), 0, 3), ((0, 2), 1, 3), ((2, 3), 1, 2)]
   \<and> pairs_of [((0, 1), 0, 3), ((0, 2), 1, 3), ((2, 3), 1, 2)]
       = pairs_of [((0, 1), 2, 3), ((0, 2), 1, 3), ((0, 3), 1, 2)]
   \<and> swap [((0, 1), 0, 3), ((0, 2), 1, 3), ((2, 3), 1, 2)] ((0, 2), (1, 0))
       = Inr [((0, 1), 2, 3), ((0, 2), 1, 3), ((0, 3), 1, 2)]
   \<and> pickleball_run 4 2 1 (\<lambda>k. ((0, 2), (1, 0)))
       = Some (Inr \<lparr>st_games = [((0, 1), 2, 3), ((0, 2), 1, 3), ((0, 3), 1, 2)],
                    st_sched = [[((0, 1), 2, 3)], [((0, 2), 1, 3)], [((0, 3), 1, 2)]],
                    st_diff = 0\<rparr>)
   \<and> pairs_of (concat [[((0, 1), 2, 3)], [((0, 2), 1, 3)], [((0, 3), 1, 2)]])
       = pairs_of (the (make_games (all_pairs 4)))"
proof -
  let ?g = "[((0, 1), 2, 3), ((0, 2), 1, 3), ((0, 3), 1, 2)] :: game list"
  let ?idx = "((0, 2), (1, 0)) :: idx"
  have sw: "swap ?g ?idx = Inr [((0, 1), 0, 3), ((0, 2), 1, 3), ((2, 3), 1, 2)]"
    by code_simp
  have run: "pickleball_run 4 2 1 (\<lambda>k. ?idx)
       = Some (Inr \<lparr>st_games = ?g,
                    st_sched = [[((0, 1), 2, 3)], [((0, 2), 1, 3)], [((0, 3), 1, 2)]],
                    st_diff = 0\<rparr>)"
    by code_simp
  from hillclimbing_keeps_the_pairs[of ?g ?idx 4 2 1 "\<lambda>k. ?idx"] sw run show ?thesis
    by auto
qed

section \<open>What a result of make_games holds, and when there is one\<close>

lemma four_players_neq: "four_players A B \<Longrightarrow> A \<noteq> B"
  by (auto simp: four_players_iff)

lemma make_games_SomeE:
  assumes "make_games ps = Some gs" and "2 \<le> length ps"
  obtains B og where "B \<in> set ps" "four_players (ps ! 0) B"
    "make_games (filter (\<lambda>p. p \<noteq> ps ! 0 \<and> p \<noteq> B) ps) = Some og"
    "gs = (ps ! 0, B) # og"
proof -
  from assms have "first_some (\<lambda>B.
          if four_players (ps ! 0) B then
            (case make_games (filter (\<lambda>p. p \<noteq> ps ! 0 \<and> p \<noteq> B) ps) of
               Some other_games \<Rightarrow> Some ((ps ! 0, B) # other_games)
             | None \<Rightarrow> None)
          else None) ps = Some gs"
    by (subst (asm) make_games.simps) (simp add: Let_def)
  from first_some_SomeD[OF this] that show ?thesis
    by (auto split: if_splits option.splits)
qed

lemma mset_filter_two:
  assumes "distinct ps" "A \<in> set ps" "B \<in> set ps" "A \<noteq> B"
  shows "mset ps = {#A, B#} + mset (filter (\<lambda>p. p \<noteq> A \<and> p \<noteq> B) ps)"
proof -
  have "filter (\<lambda>p. p \<noteq> A \<and> p \<noteq> B) ps = remove1 B (remove1 A ps)"
    using assms(1)
    by (simp add: distinct_remove1_removeAll removeAll_filter_not_eq conj_commute
                  eq_commute[of A] eq_commute[of B])
  then have f: "mset (filter (\<lambda>p. p \<noteq> A \<and> p \<noteq> B) ps) = mset (remove1 A ps) - {#B#}"
    by simp
  have "B \<in> set (remove1 A ps)" using assms by simp
  then have "B \<in># mset (remove1 A ps)" by (simp only: set_mset_mset)
  then have b: "add_mset B (mset (remove1 A ps) - {#B#}) = mset (remove1 A ps)"
    by (rule insert_DiffM)
  have "A \<in># mset ps" using assms by simp
  then have a: "add_mset A (mset ps - {#A#}) = mset ps"
    by (rule insert_DiffM)
  have "{#A, B#} + mset (filter (\<lambda>p. p \<noteq> A \<and> p \<noteq> B) ps)
          = add_mset A (add_mset B (mset (remove1 A ps) - {#B#}))"
    by (simp only: f) simp
  also have "\<dots> = add_mset A (mset (remove1 A ps))" by (simp only: b)
  also have "\<dots> = mset ps" using a by simp
  finally show ?thesis by simp
qed

lemma make_games_sound:
  "distinct ps \<Longrightarrow> make_games ps = Some gs \<Longrightarrow>
   pairs_of gs \<subseteq># mset ps \<and> length ps = 2 * length gs + length ps mod 2
   \<and> (\<forall>g\<in>set gs. four_players (fst g) (snd g))"
proof (induction ps arbitrary: gs rule: length_induct)
  case (1 ps)
  show ?case
  proof (cases "length ps < 2")
    case True
    with 1(3) have "gs = []" by (simp add: make_games_short)
    with True show ?thesis by (simp add: pairs_of_def)
  next
    case False
    then have two: "2 \<le> length ps" by simp
    from 1(3) two obtain B og where B: "B \<in> set ps" "four_players (ps ! 0) B"
      and og: "make_games (filter (\<lambda>p. p \<noteq> ps ! 0 \<and> p \<noteq> B) ps) = Some og"
      and gs: "gs = (ps ! 0, B) # og"
      by (rule make_games_SomeE)
    let ?A = "ps ! 0"
    let ?rest = "filter (\<lambda>p. p \<noteq> ?A \<and> p \<noteq> B) ps"
    from two have A: "?A \<in> set ps" by (cases ps) auto
    have ms: "mset ps = {#?A, B#} + mset ?rest"
      using 1(2) A B(1) four_players_neq[OF B(2)] by (rule mset_filter_two)
    have len: "length ps = 2 + length ?rest"
      using arg_cong[OF ms, of size] by (simp del: mset_filter)
    then have "length ?rest < length ps" by simp
    moreover from 1(2) have "distinct ?rest" by simp
    ultimately have ih: "pairs_of og \<subseteq># mset ?rest"
      "length ?rest = 2 * length og + length ?rest mod 2"
      "\<forall>g\<in>set og. four_players (fst g) (snd g)"
      using 1(1) og by blast+
    have pg: "pairs_of gs = {#?A, B#} + pairs_of og"
      by (simp add: gs pairs_of_def)
    have "{#?A, B#} + pairs_of og \<subseteq># {#?A, B#} + mset ?rest"
      using ih(1) by (rule subset_mset.add_left_mono)
    then have "pairs_of gs \<subseteq># mset ps"
      by (simp only: pg ms[symmetric])
    moreover have "length gs = Suc (length og)" by (simp add: gs)
    with len ih(2) have "length ps = 2 * length gs + length ps mod 2"
      by presburger
    moreover from ih(3) B(2) have "\<forall>g\<in>set gs. four_players (fst g) (snd g)"
      by (simp add: gs)
    ultimately show ?thesis by simp
  qed
qed

text \<open>
  A plan is a list of games that the search of \<open>make_games\<close> can follow: each game pairs the
  first remaining pair with one of the remaining pairs, and fewer than two pairs are left
  at the end.
\<close>

fun plan_ok :: "pair list \<Rightarrow> game list \<Rightarrow> bool" where
  "plan_ok ps [] = (length ps < 2)"
| "plan_ok ps (g # gs) =
     (2 \<le> length ps \<and> fst g = ps ! 0 \<and> snd g \<in> set ps \<and> four_players (fst g) (snd g)
      \<and> plan_ok (filter (\<lambda>p. p \<noteq> fst g \<and> p \<noteq> snd g) ps) gs)"

lemma plan_ok_make_games: "plan_ok ps gs \<Longrightarrow> make_games ps \<noteq> None"
proof (induction gs arbitrary: ps)
  case Nil
  then show ?case by (simp add: make_games_short)
next
  case (Cons g gs)
  then have "make_games (filter (\<lambda>p. p \<noteq> ps ! 0 \<and> p \<noteq> snd g) ps) \<noteq> None"
    by auto
  with Cons.prems show ?case
    by (subst make_games_None_iff) auto
qed

section \<open>Matchings of pairs\<close>

text \<open>
  A matching on a set of pairs gives every pair of the set a partner in the set with whom
  it can form a game.
\<close>

definition matching :: "(pair \<Rightarrow> pair) \<Rightarrow> pair set \<Rightarrow> bool" where
  "matching m S = (\<forall>p\<in>S. m p \<in> S \<and> m (m p) = p \<and> four_players p (m p))"

definition matchable :: "pair set \<Rightarrow> bool" where
  "matchable S = (\<exists>m. matching m S)"

lemma plan_from_matching:
  "distinct (qs @ r) \<Longrightarrow> length r \<le> 1 \<Longrightarrow> matching m (set qs) \<Longrightarrow> \<exists>gs. plan_ok (qs @ r) gs"
proof (induction qs rule: length_induct)
  case (1 qs)
  show ?case
  proof (cases qs)
    case Nil
    with 1(3) have "plan_ok (qs @ r) []" by simp
    then show ?thesis ..
  next
    case (Cons A qs')
    define B where "B = m A"
    from 1(4) Cons have B: "B \<in> set qs" "m B = A" "four_players A B"
      by (simp_all add: matching_def B_def)
    from B(3) have ne: "A \<noteq> B" by (rule four_players_neq)
    let ?f = "\<lambda>p. p \<noteq> A \<and> p \<noteq> B"
    have A: "A \<in> set qs" by (simp add: Cons)
    from 1(2) A B(1) have r: "filter ?f r = r"
      by (auto simp: filter_id_conv)
    then have split: "filter ?f (qs @ r) = filter ?f qs @ r" by simp
    have shorter: "length (filter ?f qs) < length qs"
      using A by (intro length_filter_less[of A]) auto
    have "matching m (set (filter ?f qs))"
      unfolding matching_def
    proof (intro ballI conjI)
      fix p
      assume "p \<in> set (filter ?f qs)"
      then have p: "p \<in> set qs" "p \<noteq> A" "p \<noteq> B" by auto
      with 1(4) have mp: "m p \<in> set qs" "m (m p) = p" "four_players p (m p)"
        by (simp_all add: matching_def)
      from mp(2) p(3) have "m p \<noteq> A" unfolding B_def by auto
      moreover from mp(2) p(2) B(2) have "m p \<noteq> B" by auto
      ultimately show "m p \<in> set (filter ?f qs)" using mp(1) by simp
      show "m (m p) = p" by (rule mp(2))
      show "four_players p (m p)" by (rule mp(3))
    qed
    moreover from 1(2) have "distinct (filter ?f qs @ r)"
      by (auto simp: distinct_filter)
    ultimately obtain gs where gs: "plan_ok (filter ?f qs @ r) gs"
      using 1(1) shorter 1(3) by blast
    from A B(1) ne 1(2) have "2 \<le> length qs"
      by (metis Cons One_nat_def Suc_1 Suc_leI length_Cons length_pos_if_in_set
                list.set_intros(1) not_less_eq_eq set_ConsD)
    then have "2 \<le> length (qs @ r)" by simp
    moreover have "(qs @ r) ! 0 = A" by (simp add: Cons)
    moreover from B(1) have "B \<in> set (qs @ r)" by simp
    moreover from gs split
    have "plan_ok (filter (\<lambda>p. p \<noteq> A \<and> p \<noteq> B) (qs @ r)) gs" by (simp only:)
    ultimately have "plan_ok (qs @ r) ((A, B) # gs)"
      using B(3) by (simp del: filter_append)
    then show ?thesis ..
  qed
qed

lemma matchable_empty: "matchable {}"
  by (simp add: matchable_def matching_def)

lemma matchable_Un:
  assumes "matchable S" "matchable T" "S \<inter> T = {}"
  shows "matchable (S \<union> T)"
proof -
  from assms obtain mS mT where mS: "matching mS S" and mT: "matching mT T"
    by (auto simp: matchable_def)
  have "matching (\<lambda>p. if p \<in> S then mS p else mT p) (S \<union> T)"
    unfolding matching_def
  proof (intro ballI)
    fix p
    assume "p \<in> S \<union> T"
    then consider "p \<in> S" | "p \<in> T" "p \<notin> S" by blast
    then show "(if p \<in> S then mS p else mT p) \<in> S \<union> T \<and>
         (if (if p \<in> S then mS p else mT p) \<in> S
          then mS (if p \<in> S then mS p else mT p)
          else mT (if p \<in> S then mS p else mT p)) = p \<and>
         four_players p (if p \<in> S then mS p else mT p)"
    proof cases
      case 1
      with mS show ?thesis by (simp add: matching_def)
    next
      case 2
      with mT have "mT p \<in> T" "mT (mT p) = p" "four_players p (mT p)"
        by (simp_all add: matching_def)
      moreover with assms(3) have "mT p \<notin> S" by blast
      ultimately show ?thesis using 2 by simp
    qed
  qed
  then show ?thesis unfolding matchable_def by blast
qed

lemma four_players_commute: "four_players A B = four_players B A"
  by (auto simp: four_players_iff)

lemma matchable_pair:
  assumes "four_players A B"
  shows "matchable {A, B}"
proof -
  from assms have "A \<noteq> B" by (rule four_players_neq)
  with assms have "matching (\<lambda>p. if p = A then B else A) {A, B}"
    by (auto simp: matching_def four_players_commute)
  then show ?thesis unfolding matchable_def by blast
qed

text \<open>The pairs \<open>(a, P)\<close> and \<open>(a, P + 1)\<close> of the players \<open>a\<close> below \<open>P\<close>.\<close>

definition cross :: "nat \<Rightarrow> pair set" where
  "cross P = {(a, b). a < P \<and> (b = P \<or> b = Suc P)}"

lemma matchable_cross:
  assumes "2 \<le> P"
  shows "matchable (cross P)"
proof -
  define up where "up a = (if Suc a = P then 0 else Suc a)" for a
  define down where "down a = (if a = 0 then P - 1 else a - 1)" for a
  define m :: "pair \<Rightarrow> pair"
    where "m p = (if snd p = P then (up (fst p), Suc P) else (down (fst p), P))" for p
  have "matching m (cross P)"
    unfolding matching_def
  proof (intro ballI)
    fix p
    assume "p \<in> cross P"
    then obtain a b where p: "p = (a, b)" "a < P" "b = P \<or> b = Suc P"
      by (auto simp: cross_def)
    from p(3) show "m p \<in> cross P \<and> m (m p) = p \<and> four_players p (m p)"
    proof
      assume "b = P"
      with p assms show ?thesis
        by (auto simp: m_def up_def down_def cross_def four_players_iff)
    next
      assume "b = Suc P"
      with p assms show ?thesis
        by (auto simp: m_def up_def down_def cross_def four_players_iff)
    qed
  qed
  then show ?thesis unfolding matchable_def by blast
qed

section \<open>The pairs of P players can be matched\<close>

lemma set_combinations2_subset: "set (combinations2 xs) \<subseteq> set xs \<times> set xs"
  by (induction xs) auto

lemma distinct_combinations2: "distinct xs \<Longrightarrow> distinct (combinations2 xs)"
proof (induction xs)
  case Nil
  then show ?case by simp
next
  case (Cons x xs)
  have "distinct (map (Pair x) xs)"
    using Cons.prems by (simp add: distinct_map inj_on_def)
  moreover have "set (map (Pair x) xs) \<inter> set (combinations2 xs) = {}"
    using Cons.prems set_combinations2_subset[of xs] by auto
  ultimately show ?case using Cons by simp
qed

lemma length_combinations2: "2 * length (combinations2 xs) = length xs * (length xs - 1)"
proof (induction xs)
  case Nil
  then show ?case by simp
next
  case (Cons x xs)
  then show ?case by (cases "length xs") (simp_all add: algebra_simps)
qed

lemma combinations2_snoc2: "\<exists>qs. combinations2 (xs @ [x, y]) = qs @ [(x, y)]"
  by (induction xs) auto

lemma set_combinations2_upt:
  "set (combinations2 [m..<n]) = {(a, b). m \<le> a \<and> a < b \<and> b < n}"
proof (induction "n - m" arbitrary: m)
  case 0
  then show ?case by auto
next
  case (Suc k)
  then have lt: "m < n" and k: "k = n - Suc m" by auto
  from lt have "[m..<n] = m # [Suc m..<n]" by (rule upt_conv_Cons)
  then have "set (combinations2 [m..<n])
               = Pair m ` {Suc m..<n} \<union> set (combinations2 [Suc m..<n])"
    by simp
  also have "\<dots> = Pair m ` {Suc m..<n} \<union> {(a, b). Suc m \<le> a \<and> a < b \<and> b < n}"
    by (simp only: Suc(1)[OF k])
  also have "\<dots> = {(a, b). m \<le> a \<and> a < b \<and> b < n}"
  proof (intro set_eqI iffI)
    fix p
    assume "p \<in> Pair m ` {Suc m..<n} \<union> {(a, b). Suc m \<le> a \<and> a < b \<and> b < n}"
    then show "p \<in> {(a, b). m \<le> a \<and> a < b \<and> b < n}" by auto
  next
    fix p
    assume p: "p \<in> {(a, b). m \<le> a \<and> a < b \<and> b < n}"
    obtain a b where ab: "p = (a, b)" by (cases p)
    with p have "m \<le> a" "a < b" "b < n" by auto
    then show "p \<in> Pair m ` {Suc m..<n} \<union> {(a, b). Suc m \<le> a \<and> a < b \<and> b < n}"
      unfolding ab by (cases "a = m") auto
  qed
  finally show ?case .
qed

text \<open>The pairs of the players below \<open>P\<close>.\<close>

definition below :: "nat \<Rightarrow> pair set" where
  "below P = {(a, b). a < b \<and> b < P}"

lemma set_all_pairs: "set (all_pairs (int P)) = below P"
  by (simp add: all_pairs_def below_def set_combinations2_upt)

lemma distinct_all_pairs: "distinct (all_pairs P)"
  by (simp add: all_pairs_def distinct_combinations2)

lemma length_all_pairs: "2 * length (all_pairs (int P)) = P * (P - 1)"
  using length_combinations2[of "[0..<P]"] by (simp add: all_pairs_def)

lemma all_pairs_last:
  assumes "2 \<le> P"
  shows "\<exists>qs. all_pairs (int P) = qs @ [(P - 2, P - 1)] \<and> set qs = below P - {(P - 2, P - 1)}"
proof -
  from le_Suc_ex[OF assms] obtain Q where "P = 2 + Q" by blast
  then have "P = Suc (Suc Q)" by simp
  then have "[0..<P] = [0..<P - 2] @ [P - 2, P - 1]" by simp
  with combinations2_snoc2[of "[0..<P - 2]" "P - 2" "P - 1"]
  obtain qs where qs: "all_pairs (int P) = qs @ [(P - 2, P - 1)]"
    by (auto simp: all_pairs_def)
  with distinct_all_pairs[of "int P"] have "(P - 2, P - 1) \<notin> set qs" by simp
  moreover from qs set_all_pairs[of P] have "below P = insert (P - 2, P - 1) (set qs)"
    by simp
  ultimately have "set qs = below P - {(P - 2, P - 1)}" by auto
  with qs show ?thesis by blast
qed

lemma below_Suc_Suc: "below (Suc (Suc P)) = below P \<union> cross P \<union> {(P, Suc P)}"
  by (auto simp: below_def cross_def)

lemma matchable_even_to_odd:
  assumes "matchable (below P)" and "P = 0 \<or> 2 \<le> P"
  shows "matchable (below (Suc (Suc P)) - {(P, Suc P)})"
proof -
  have c: "matchable (cross P)"
  proof (cases "P = 0")
    case True
    then have "cross P = {}" by (auto simp: cross_def)
    then show ?thesis by (simp add: matchable_empty)
  next
    case False
    with assms(2) show ?thesis by (simp add: matchable_cross)
  qed
  have "below (Suc (Suc P)) - {(P, Suc P)} = below P \<union> cross P"
    by (auto simp: below_def cross_def)
  moreover have "below P \<inter> cross P = {}"
    by (auto simp: below_def cross_def)
  ultimately show ?thesis using assms(1) c by (simp add: matchable_Un)
qed

lemma matchable_odd_to_even:
  assumes "matchable (below P - {(P - 2, P - 1)})" and "2 \<le> P"
  shows "matchable (below (Suc (Suc P)))"
proof -
  let ?L = "(P - 2, P - 1)"
  from assms(2) have "four_players ?L (P, Suc P)"
    by (auto simp: four_players_iff)
  then have two: "matchable {?L, (P, Suc P)}" by (rule matchable_pair)
  have c: "matchable (cross P)" using assms(2) by (rule matchable_cross)
  from assms(2) have L: "?L \<in> below P" by (auto simp: below_def)
  then have eq: "below (Suc (Suc P))
          = ((below P - {?L}) \<union> cross P) \<union> {?L, (P, Suc P)}"
    unfolding below_Suc_Suc by auto
  have "(below P - {?L}) \<inter> cross P = {}"
    by (auto simp: below_def cross_def)
  with assms(1) c have u: "matchable ((below P - {?L}) \<union> cross P)"
    by (rule matchable_Un)
  have d: "((below P - {?L}) \<union> cross P) \<inter> {?L, (P, Suc P)} = {}"
    using assms(2) by (auto simp: below_def cross_def)
  from matchable_Un[OF u two d] show ?thesis by (simp only: eq)
qed

text \<open>
  \<open>matched P\<close>: with an even number of pairs (\<open>P\<close> or \<open>P - 1\<close> a multiple of 4) all pairs
  of \<open>P\<close> players can be matched, and otherwise all but the last one, \<open>(P - 2, P - 1)\<close>.
\<close>

definition matched :: "nat \<Rightarrow> bool" where
  "matched P = (if P mod 4 < 2 then matchable (below P)
                else matchable (below P - {(P - 2, P - 1)}))"

lemma matched_step:
  assumes "matched P" and "2 \<le> P"
  shows "matched (Suc (Suc P))"
proof (cases "P mod 4 < 2")
  case True
  then have "\<not> Suc (Suc P) mod 4 < 2" by presburger
  with True assms matchable_even_to_odd[of P] show ?thesis
    by (simp add: matched_def)
next
  case False
  then have "Suc (Suc P) mod 4 < 2" by presburger
  with False assms matchable_odd_to_even[of P] show ?thesis
    by (simp add: matched_def)
qed

lemma matched_4: "matched 4"
proof -
  have "below 2 - {(2 - 2, 2 - 1)} = {}" by (auto simp: below_def)
  then have "matchable (below 2 - {(2 - 2, 2 - 1)})" by (simp only: matchable_empty)
  then have "matched 2" by (simp add: matched_def)
  then have "matched (Suc (Suc 2))" by (rule matched_step) simp
  then show ?thesis by (simp add: numeral_eq_Suc)
qed

lemma all_pairs_5:
  "all_pairs 5 = [(0, 1), (0, 2), (0, 3), (0, 4), (1, 2), (1, 3), (1, 4), (2, 3), (2, 4), (3, 4)]"
  by code_simp

lemma below_5:
  "below 5 = {(0, 1), (2, 3), (0, 2), (1, 4), (0, 3), (2, 4), (0, 4), (1, 3), (1, 2), (3, 4)}"
proof -
  have "below 5 = set (all_pairs (int 5))" by (simp only: set_all_pairs)
  also have "\<dots> = set [(0, 1), (0, 2), (0, 3), (0, 4), (1, 2), (1, 3), (1, 4), (2, 3), (2, 4), (3, 4)]"
    using all_pairs_5 by simp
  also have "\<dots> = {(0, 1), (2, 3), (0, 2), (1, 4), (0, 3), (2, 4), (0, 4), (1, 3), (1, 2), (3, 4)}"
    by (simp add: insert_commute)
  finally show ?thesis .
qed

lemma matchable_insert2:
  assumes "four_players A B" and "matchable S" and "A \<notin> S" and "B \<notin> S"
  shows "matchable (insert A (insert B S))"
proof -
  from assms(1) have "matchable {A, B}" by (rule matchable_pair)
  moreover from assms(3,4) have "{A, B} \<inter> S = {}" by simp
  ultimately have "matchable ({A, B} \<union> S)" using assms(2) by (intro matchable_Un)
  then show ?thesis by simp
qed

lemma matched_5: "matched 5"
proof -
  have "matchable {(0, 1), (2, 3), (0, 2), (1, 4), (0, 3), (2, 4), (0, 4), (1, 3), (1, 2), (3, 4 :: nat)}"
    by (intro matchable_insert2 matchable_empty) (simp_all add: four_players_iff)
  then show ?thesis by (simp add: matched_def below_5)
qed

lemma matched_all: "4 \<le> P \<Longrightarrow> matched P"
proof (induction P rule: less_induct)
  case (less P)
  consider "P = 4" | "P = 5" | "6 \<le> P" using less.prems by linarith
  then show ?case
  proof cases
    case 1
    then show ?thesis by (simp add: matched_4)
  next
    case 2
    then show ?thesis by (simp add: matched_5)
  next
    case 3
    from le_Suc_ex[OF 3] obtain R where "P = 6 + R" by blast
    then have Q: "P = Suc (Suc (4 + R))" "4 \<le> 4 + R" by simp_all
    then have "matched (4 + R)" using less.IH by simp
    then have "matched (Suc (Suc (4 + R)))" by (rule matched_step) simp
    with Q show ?thesis by (simp only:)
  qed
qed

lemma plan_for_all_pairs:
  assumes "4 \<le> P"
  shows "\<exists>gs. plan_ok (all_pairs (int P)) gs"
proof (cases "P mod 4 < 2")
  case True
  with matched_all[OF assms] obtain m where "matching m (set (all_pairs (int P)))"
    by (auto simp: matched_def matchable_def set_all_pairs)
  with plan_from_matching[of "all_pairs (int P)" "[]" m] distinct_all_pairs[of "int P"]
  show ?thesis by simp
next
  case False
  from assms obtain qs where qs: "all_pairs (int P) = qs @ [(P - 2, P - 1)]"
    "set qs = below P - {(P - 2, P - 1)}"
    using all_pairs_last[of P] by auto
  with False matched_all[OF assms] obtain m where "matching m (set qs)"
    by (auto simp: matched_def matchable_def)
  with plan_from_matching[of qs "[(P - 2, P - 1)]" m] distinct_all_pairs[of "int P"] qs(1)
  show ?thesis by simp
qed

section \<open>make_games on all pairs\<close>

lemma pairs_count_parity:
  fixes n L :: nat
  assumes "2 * L = n * (n - 1)"
  shows "even L = (n mod 4 < 2)"
proof -
  define q where "q = n div 4"
  define r where "r = n mod 4"
  have n: "n = 4 * q + r" and r: "r < 4" by (simp_all add: q_def r_def)
  from r consider "r = 0" | "r = 1" | "r = 2" | "r = 3" by linarith
  then show ?thesis
  proof cases
    case 1
    with n assms have "2 * L = 2 * (2 * (q * (4 * q - 1)))" by simp
    then have "L = 2 * (q * (4 * q - 1))" by simp
    with 1 show ?thesis by (simp add: r_def)
  next
    case 2
    with n assms have "2 * L = 2 * (2 * ((4 * q + 1) * q))" by simp
    then have "L = 2 * ((4 * q + 1) * q)" by simp
    with 2 show ?thesis by (simp add: r_def)
  next
    case 3
    with n assms have "2 * L = 2 * (2 * (q * (4 * q + 3)) + 1)"
      by (simp add: algebra_simps)
    then have "L = 2 * (q * (4 * q + 3)) + 1" by simp
    with 3 show ?thesis by (simp add: r_def)
  next
    case 4
    with n assms have "2 * L = 2 * (2 * (q * (4 * q + 5) + 1) + 1)"
      by (simp add: algebra_simps)
    then have "L = 2 * (q * (4 * q + 5) + 1) + 1" by simp
    with 4 show ?thesis by (simp add: r_def)
  qed
qed

lemma make_games_all_pairs_nat:
  assumes "4 \<le> n"
  shows "\<exists>gs. make_games (all_pairs (int n)) = Some gs
           \<and> 4 * length gs + 2 * (length (all_pairs (int n)) mod 2) = n * (n - 1)
           \<and> (\<forall>g\<in>set gs. four_players (fst g) (snd g))
           \<and> (if n mod 4 < 2 then pairs_of gs = mset (all_pairs (int n))
               else \<exists>p\<in>set (all_pairs (int n)).
                      pairs_of gs = mset (all_pairs (int n)) - {#p#})"
proof -
  let ?ps = "all_pairs (int n)"
  from plan_for_all_pairs[OF assms] obtain plan where "plan_ok ?ps plan" by blast
  then have "make_games ?ps \<noteq> None" by (rule plan_ok_make_games)
  then obtain gs where gs: "make_games ?ps = Some gs" by blast
  from make_games_sound[OF distinct_all_pairs gs]
  have sub: "pairs_of gs \<subseteq># mset ?ps"
    and len: "length ?ps = 2 * length gs + length ?ps mod 2"
    and four: "\<forall>g\<in>set gs. four_players (fst g) (snd g)"
    by simp_all
  from sub obtain C where C: "mset ?ps = pairs_of gs + C"
    by (auto simp: mset_subset_eq_exists_conv)
  have size_pairs: "size (pairs_of gs) = 2 * length gs"
    by (induction gs) (simp_all add: pairs_of_def)
  from arg_cong[OF C, of size] len size_pairs have sizeC: "size C = length ?ps mod 2"
    by simp
  have par: "even (length ?ps) = (n mod 4 < 2)"
    using length_all_pairs[of n] by (rule pairs_count_parity)
  have count: "4 * length gs + 2 * (length ?ps mod 2) = n * (n - 1)"
    using len length_all_pairs[of n] by presburger
  have cover: "if n mod 4 < 2 then pairs_of gs = mset ?ps
               else \<exists>p\<in>set ?ps. pairs_of gs = mset ?ps - {#p#}"
  proof (cases "n mod 4 < 2")
    case True
    with par sizeC have "C = {#}" by (simp add: even_iff_mod_2_eq_zero)
    with C True show ?thesis by simp
  next
    case False
    with par sizeC have "size C = 1" by (simp add: odd_iff_mod_2_eq_one)
    from size_1_singleton_mset[OF this] obtain p where p: "C = {#p#}" by blast
    with C have "p \<in># mset ?ps" by simp
    then have "p \<in> set ?ps" by simp
    moreover from C p have "pairs_of gs = mset ?ps - {#p#}" by simp
    ultimately show ?thesis using False by auto
  qed
  from gs count four cover show ?thesis by blast
qed

text \<open>
  Claim C4. For every \<open>P \<ge> 4\<close>, \<open>make_games(all_pairs(P))\<close> returns a list of games and not
  \<open>None\<close>; the pairs of \<open>all_pairs(P)\<close> are all different; when \<open>P\<close> or \<open>P - 1\<close> is a
  multiple of 4 every one of them stands in exactly one game, and otherwise exactly one
  of them stands in no game and every other one in exactly one; the number of games is
  \<open>P * (P - 1) div 4\<close>, and every game has four different players.
\<close>

theorem make_games_all_pairs:
  assumes "4 \<le> P"
  shows "\<exists>gs. make_games (all_pairs P) = Some gs
           \<and> int (length gs) = P * (P - 1) div 4
           \<and> (\<forall>g\<in>set gs. four_players (fst g) (snd g))
           \<and> distinct (all_pairs P)
           \<and> (if P mod 4 = 0 \<or> (P - 1) mod 4 = 0
               then pairs_of gs = mset (all_pairs P)
               else \<exists>p\<in>set (all_pairs P). pairs_of gs = mset (all_pairs P) - {#p#})"
proof -
  define n where "n = nat P"
  with assms have P: "P = int n" and n: "4 \<le> n" by simp_all
  from make_games_all_pairs_nat[OF n] obtain gs where
    gs: "make_games (all_pairs (int n)) = Some gs"
    and count: "4 * length gs + 2 * (length (all_pairs (int n)) mod 2) = n * (n - 1)"
    and four: "\<forall>g\<in>set gs. four_players (fst g) (snd g)"
    and cover: "if n mod 4 < 2 then pairs_of gs = mset (all_pairs (int n))
               else \<exists>p\<in>set (all_pairs (int n)).
                      pairs_of gs = mset (all_pairs (int n)) - {#p#}"
    by blast
  have "length (all_pairs (int n)) mod 2 < 2" by simp
  with count have "length gs = n * (n - 1) div 4" by linarith
  moreover from n have "int (n * (n - 1) div 4) = int n * (int n - 1) div 4"
    by (simp add: zdiv_int of_nat_diff)
  ultimately have len: "int (length gs) = P * (P - 1) div 4" by (simp add: P)
  have "(n mod 4 < 2) = (P mod 4 = 0 \<or> (P - 1) mod 4 = 0)"
    unfolding P by presburger
  with cover have "if P mod 4 = 0 \<or> (P - 1) mod 4 = 0
               then pairs_of gs = mset (all_pairs P)
               else \<exists>p\<in>set (all_pairs P). pairs_of gs = mset (all_pairs P) - {#p#}"
    by (simp add: P)
  with gs len four distinct_all_pairs[of P] show ?thesis
    unfolding P by blast
qed

theorem make_games_all_pairs_witness:
  "(4::int) \<le> 5
   \<and> (\<exists>gs. make_games (all_pairs 5) = Some gs \<and> int (length gs) = 5
          \<and> pairs_of gs = mset (all_pairs 5))
   \<and> (4::int) \<le> 6
   \<and> (\<exists>gs. make_games (all_pairs 6) = Some gs \<and> int (length gs) = 7
          \<and> (\<exists>p\<in>set (all_pairs 6). pairs_of gs = mset (all_pairs 6) - {#p#}))"
proof -
  have five: "(4::int) \<le> 5" and six: "(4::int) \<le> 6" by simp_all
  from make_games_all_pairs[OF five] make_games_all_pairs[OF six] five six
  show ?thesis by auto
qed

section \<open>Sixteen players on four courts\<close>

lemma schedule_16_4:
  "\<exists>games0 sched0. make_games (all_pairs 16) = Some games0 \<and> length games0 = 60
      \<and> schedule games0 4 = Some sched0 \<and> length sched0 = 15"
proof -
  have "(case make_games (all_pairs 16) of None \<Rightarrow> None
         | Some g \<Rightarrow> (case schedule g 4 of None \<Rightarrow> None
                      | Some s \<Rightarrow> Some (length g, length s))) = Some (60, 15)"
    by code_simp
  then show ?thesis by (auto split: option.splits)
qed

text \<open>
  Claim C7. With 16 players and 4 courts the initial
  \<open>schedule(make_games(all_pairs(16)), 4)\<close> has 15 rounds, \<open>pickleball(16, 4, N)\<close> never
  returns a schedule of more than 15 rounds, whatever \<open>N\<close> and the draws are, and it does
  return a schedule when the draws are positions of two different games of the 60 and a
  choice of sides.
\<close>

theorem pickleball_16_players_4_courts:
  "(\<exists>games0 sched0. make_games (all_pairs 16) = Some games0
        \<and> schedule games0 4 = Some sched0 \<and> length sched0 \<le> 15)
   \<and> (\<forall>sched. pickleball 16 4 N rng = Some (Inr sched) \<longrightarrow> length sched \<le> 15)
   \<and> ((\<forall>k<nat N. idx_ok 60 (rng k)) \<longrightarrow>
         (\<exists>sched. pickleball 16 4 N rng = Some (Inr sched) \<and> length sched \<le> 15))"
proof -
  from schedule_16_4 obtain games0 sched0 where
    g0: "make_games (all_pairs 16) = Some games0" and n0: "length games0 = 60"
    and s0: "schedule games0 4 = Some sched0" and l0: "length sched0 = 15"
    by blast
  have bound: "length sched \<le> 15" if "pickleball 16 4 N rng = Some (Inr sched)" for sched
  proof -
    from that obtain st where run: "pickleball_run 16 4 N rng = Some (Inr st)"
      and sched: "sched = st_sched st"
      by (auto simp: pickleball_def split: option.splits sum.splits)
    from run obtain games1 sched1 where
      "make_games (all_pairs 16) = Some games1" "schedule games1 4 = Some sched1"
      and hc: "hillclimb (all_pairs 16) 4 (nat N)
         \<lparr>st_games = games1, st_sched = sched1,
          st_diff = opp_difference games1 (all_pairs 16) 2\<rparr> rng = Some (Inr st)"
      by (rule pickleball_run_cases)
    with g0 s0 have "games1 = games0" "sched1 = sched0" by simp_all
    with hillclimb_step[OF hc] l0 sched show ?thesis by simp
  qed
  have returns: "\<exists>sched. pickleball 16 4 N rng = Some (Inr sched) \<and> length sched \<le> 15"
    if ok: "\<forall>k<nat N. idx_ok 60 (rng k)"
  proof -
    have "\<exists>st. pickleball_run 16 4 N rng = Some (Inr st)"
      using g0 n0 ok by (intro pickleball_run_returns[of 16 games0]) simp_all
    then obtain st where "pickleball_run 16 4 N rng = Some (Inr st)" by blast
    then have "pickleball 16 4 N rng = Some (Inr (st_sched st))"
      by (simp add: pickleball_def)
    with bound show ?thesis by blast
  qed
  from g0 s0 l0 bound returns show ?thesis by auto
qed

theorem pickleball_16_players_4_courts_witness:
  "idx_ok 60 ((0, 1), (0, 0))
   \<and> (\<exists>sched. pickleball 16 4 1 (\<lambda>k. ((0, 1), (0, 0))) = Some (Inr sched)
          \<and> length sched \<le> 15)"
proof -
  have ok: "idx_ok 60 ((0, 1), (0, 0))" by (simp add: idx_ok_def sides_def)
  with pickleball_16_players_4_courts[of 1 "\<lambda>k. ((0, 1), (0, 0))"] show ?thesis
    by simp
qed

section \<open>Configurations that are not checked\<close>

lemma all_pairs_below_2: "P < 2 \<Longrightarrow> all_pairs P = []"
proof -
  assume "P < 2"
  then have "nat P = 0 \<or> nat P = Suc 0" by linarith
  then show ?thesis by (auto simp: all_pairs_def)
qed

lemma all_pairs_2: "all_pairs 2 = [(0, 1)]"
  by code_simp

lemma all_pairs_3: "all_pairs 3 = [(0, 1), (0, 2), (1, 2)]"
  by code_simp

lemma all_pairs_short: "P \<le> 2 \<Longrightarrow> length (all_pairs P) < 2"
proof -
  assume "P \<le> 2"
  then consider "P < 2" | "P = 2" by linarith
  then show ?thesis by cases (simp_all add: all_pairs_below_2 all_pairs_2)
qed

lemma schedule_Nil: "schedule [] courts = Some []"
  by (simp add: schedule_def schedule_loop.simps[of courts "[]"])

lemma fill_round_no_courts:
  "courts < 1 \<Longrightarrow> fill_round courts snapshot round games = (round, games)"
  by (induction snapshot) simp_all

lemma schedule_loop_no_courts:
  assumes "schedule_loop courts games sched = Some res"
  shows "courts < 1 \<longrightarrow> games = []"
proof (induction rule: schedule_loop.raw_induct [OF _ assms])
  case (1 loop courts games sched res)
  show ?case
  proof
    assume c: "courts < 1"
    show "games = []"
    proof (rule ccontr)
      assume ne: "games \<noteq> []"
      with 1(2) c have "loop courts games (sched @ [[]]) = Some res"
        by (simp add: fill_round_no_courts)
      from 1(1)[OF this] c ne show False by simp
    qed
  qed
qed

lemma schedule_no_courts: "courts < 1 \<Longrightarrow> games \<noteq> [] \<Longrightarrow> schedule games courts = None"
  using schedule_loop_no_courts[of courts games "[]"]
  by (cases "schedule games courts") (auto simp: schedule_def)

lemma hillclimb_no_games:
  "st_games st = [] \<Longrightarrow>
   hillclimb pairs courts n st rng = (if n = 0 then Some (Inr st) else Some (Inl ValueError))"
  by (cases n) (simp_all add: trial_def indexes_def)

lemma pickleball_few_players:
  assumes "P \<le> 2"
  shows "pickleball P C N rng = (if N \<le> 0 then Some (Inr []) else Some (Inl ValueError))"
proof -
  from assms have "make_games (all_pairs P) = Some []"
    by (intro make_games_short all_pairs_short)
  then have "pickleball_init P C
      = Some (Inr \<lparr>st_games = [], st_sched = [],
                    st_diff = opp_difference [] (all_pairs P) 2\<rparr>)"
    by (simp add: pickleball_init_def schedule_Nil)
  then show ?thesis
    by (simp add: pickleball_def pickleball_run_def hillclimb_no_games)
qed

lemma pickleball_three_players: "pickleball 3 C N rng = Some (Inl TypeError)"
proof -
  have "make_games (all_pairs 3) = None"
    unfolding all_pairs_3
    by (subst make_games_None_iff) (simp add: four_players_iff)
  then show ?thesis
    by (simp add: pickleball_def pickleball_run_def pickleball_init_def)
qed

lemma pickleball_no_courts:
  assumes "4 \<le> P" and "C < 1"
  shows "pickleball P C N rng = None"
proof -
  define n where "n = nat P"
  with assms(1) have P: "P = int n" and n: "4 \<le> n" by simp_all
  from make_games_all_pairs_nat[OF n] obtain gs where
    gs: "make_games (all_pairs (int n)) = Some gs"
    and count: "4 * length gs + 2 * (length (all_pairs (int n)) mod 2) = n * (n - 1)"
    by blast
  from n have "4 * 3 \<le> n * (n - 1)" by (intro mult_le_mono) simp_all
  with count have "gs \<noteq> []" by auto
  with assms(2) have "schedule gs C = None" by (intro schedule_no_courts)
  with gs show ?thesis
    by (simp add: pickleball_def pickleball_run_def pickleball_init_def P)
qed

text \<open>
  Claim C3, as the claim states it, fails: nothing in the source checks \<open>P\<close> or \<open>courts\<close>.
  \<open>all_pairs\<close> returns the empty list for \<open>P = 1\<close> and for a negative \<open>P\<close>, and
  \<open>pickleball\<close> returns the empty schedule for two players with no trial, also with no
  player and no court.
\<close>

theorem no_invalid_configuration_counterexample:
  "all_pairs 1 = [] \<and> all_pairs (- 1) = []
   \<and> pickleball 2 2 0 (\<lambda>k. ((0, 1), (0, 0))) = Some (Inr [])
   \<and> pickleball 0 0 0 (\<lambda>k. ((0, 1), (0, 0))) = Some (Inr [])"
  by (simp add: all_pairs_below_2 pickleball_few_players)

text \<open>
  Claim C3, amended. No configuration is rejected before construction. For \<open>P < 2\<close>,
  \<open>all_pairs(P)\<close> returns the empty list. For \<open>P \<le> 2\<close>, \<open>pickleball(P, C, N)\<close> builds no
  game and returns the empty schedule when there is no trial (\<open>N \<le> 0\<close>), whatever \<open>C\<close> is;
  with a trial it ends in the \<open>ValueError\<close> of the first draw. For \<open>P = 3\<close> it ends in the
  \<open>TypeError\<close> raised when \<open>opp_difference\<close> iterates over the \<open>None\<close> that \<open>make_games\<close>
  returned. For \<open>P \<ge> 4\<close> and \<open>C < 1\<close> it does not return: the loop of \<open>schedule\<close> never
  places a game.
\<close>

theorem pickleball_checks_no_configuration:
  "(P < 2 \<longrightarrow> all_pairs P = [])
   \<and> (P \<le> 2 \<and> N \<le> 0 \<longrightarrow> pickleball P C N rng = Some (Inr []))
   \<and> (P \<le> 2 \<and> 0 < N \<longrightarrow> pickleball P C N rng = Some (Inl ValueError))
   \<and> (P = 3 \<longrightarrow> pickleball P C N rng = Some (Inl TypeError))
   \<and> (4 \<le> P \<and> C < 1 \<longrightarrow> pickleball P C N rng = None)"
  using all_pairs_below_2[of P] pickleball_few_players[of P C N rng]
        pickleball_three_players[of C N rng] pickleball_no_courts[of P C N rng]
  by auto

theorem pickleball_checks_no_configuration_witness:
  "all_pairs 1 = []
   \<and> pickleball 2 2 0 (\<lambda>k. ((0, 1), (0, 0))) = Some (Inr [])
   \<and> pickleball 2 2 1 (\<lambda>k. ((0, 1), (0, 0))) = Some (Inl ValueError)
   \<and> pickleball 3 2 1 (\<lambda>k. ((0, 1), (0, 0))) = Some (Inl TypeError)
   \<and> pickleball 4 0 1 (\<lambda>k. ((0, 1), (0, 0))) = None"
  using pickleball_checks_no_configuration[of 1 0 2 "\<lambda>k. ((0, 1), (0, 0))"]
        pickleball_checks_no_configuration[of 2 0 2 "\<lambda>k. ((0, 1), (0, 0))"]
        pickleball_checks_no_configuration[of 2 1 2 "\<lambda>k. ((0, 1), (0, 0))"]
        pickleball_checks_no_configuration[of 3 1 2 "\<lambda>k. ((0, 1), (0, 0))"]
        pickleball_checks_no_configuration[of 4 1 0 "\<lambda>k. ((0, 1), (0, 0))"]
  by simp

section \<open>The draws decide the result\<close>

lemma trial_first_draw:
  "trial pairs courts st rng =
     map_option (map_sum id (\<lambda>sr. (fst sr, \<lambda>k. rng (Suc k))))
       (trial pairs courts st (\<lambda>k. rng 0))"
proof (cases "length (st_games st) < 2")
  case True
  then show ?thesis by (simp add: trial_def indexes_def)
next
  case False
  obtain i j ab where idx: "rng 0 = ((i, j), ab)" by (metis surj_pair)
  show ?thesis
  proof (cases "swap (st_games st) ((i, j), ab)")
    case (Inl e)
    with False idx show ?thesis by (simp add: trial_def indexes_def)
  next
    case (Inr games)
    show ?thesis
    proof (cases "swap games ((i, j), ab)")
      case Inl
      with False idx Inr show ?thesis
        by (cases "schedule games courts") (simp_all add: trial_def indexes_def Let_def)
    next
      case (Inr games')
      with False idx \<open>swap (st_games st) ((i, j), ab) = Inr games\<close> show ?thesis
        by (cases "schedule games courts") (simp_all add: trial_def indexes_def Let_def)
    qed
  qed
qed

lemma hillclimb_first_draws:
  "\<forall>k<n. rng k = rng' k \<Longrightarrow>
   hillclimb pairs courts n st rng = hillclimb pairs courts n st rng'"
proof (induction n arbitrary: st rng rng')
  case 0
  show ?case by simp
next
  case (Suc n)
  from Suc.prems have zero: "rng 0 = rng' 0" by simp
  from Suc.prems have rest: "\<forall>k<n. rng (Suc k) = rng' (Suc k)" by simp
  show ?case
  proof (cases "trial pairs courts st (\<lambda>k. rng 0)")
    case None
    then show ?thesis
      using trial_first_draw[of pairs courts st rng]
            trial_first_draw[of pairs courts st rng'] zero
      by simp
  next
    case (Some r)
    show ?thesis
    proof (cases r)
      case (Inl e)
      with Some show ?thesis
        using trial_first_draw[of pairs courts st rng]
              trial_first_draw[of pairs courts st rng'] zero
        by simp
    next
      case (Inr sr)
      with Some have
        "trial pairs courts st rng = Some (Inr (fst sr, \<lambda>k. rng (Suc k)))"
        "trial pairs courts st rng' = Some (Inr (fst sr, \<lambda>k. rng' (Suc k)))"
        using trial_first_draw[of pairs courts st rng]
              trial_first_draw[of pairs courts st rng'] zero
        by simp_all
      with Suc.IH[OF rest, of "fst sr"] show ?thesis by simp
    qed
  qed
qed

text \<open>
  Claim C2, as the claim states it, fails. \<open>pickleball\<close> has no seed parameter: it draws
  from the process-wide generator, which the notebook seeds once and which every earlier
  draw advances. Below, two calls with the same \<open>P\<close>, \<open>courts\<close> and \<open>N\<close> differ only in
  that one call of \<open>indexes\<close> came before the second, and they return different schedules.
\<close>

theorem pickleball_hidden_state_counterexample:
  "indexes [((0, 1), (2, 3)), ((0, 2), (1, 3))]
       (\<lambda>k. if k = 0 then ((0, 1), (0, 0)) else ((1, 3), (0, 0)))
     = Inr (((0, 1), (0, 0)),
            \<lambda>k. if Suc k = 0 then ((0, 1), (0, 0)) else ((1, 3), (0, 0)))
   \<and> pickleball 6 2 1 (\<lambda>k. if k = 0 then ((0, 1), (0, 0)) else ((1, 3), (0, 0)))
       \<noteq> pickleball 6 2 1 (\<lambda>k. if Suc k = 0 then ((0, 1), (0, 0)) else ((1, 3), (0, 0)))"
proof -
  have "pickleball 6 2 1 (\<lambda>k. if k = 0 then ((0, 1), (0, 0)) else ((1, 3), (0, 0)))
       \<noteq> pickleball 6 2 1 (\<lambda>k. if Suc k = 0 then ((0, 1), (0, 0)) else ((1, 3), (0, 0)))"
    by code_simp
  then show ?thesis by (simp add: indexes_def)
qed

text \<open>
  Claim C2, amended. \<open>pickleball\<close> is a function of \<open>P\<close>, \<open>courts\<close>, \<open>N\<close> and the draws the
  process-wide generator gives to its \<open>N\<close> trials, one call of \<open>indexes\<close> for each trial in
  order: two runs with the same three arguments whose generators give the same first \<open>N\<close>
  draws return the same schedule, and end with the same games and cost, whatever the
  generators would give later.
\<close>

theorem pickleball_same_draws_same_schedule:
  "(\<forall>k<nat N. rng k = rng' k) \<longrightarrow>
     pickleball P courts N rng = pickleball P courts N rng'
     \<and> pickleball_run P courts N rng = pickleball_run P courts N rng'"
proof
  assume "\<forall>k<nat N. rng k = rng' k"
  then have "pickleball_run P courts N rng = pickleball_run P courts N rng'"
    by (auto simp: pickleball_run_def intro: hillclimb_first_draws
             split: option.splits sum.splits)
  then show "pickleball P courts N rng = pickleball P courts N rng'
     \<and> pickleball_run P courts N rng = pickleball_run P courts N rng'"
    by (simp add: pickleball_def)
qed

theorem pickleball_same_draws_same_schedule_witness:
  "(\<lambda>k. ((1, 3), (0, 0)) :: idx) 0 = (\<lambda>k. if k = 0 then ((1, 3), (0, 0)) else ((0, 1), (0, 0))) (0::nat)
   \<and> (\<lambda>k. ((1, 3), (0, 0)) :: idx) 1 \<noteq> (\<lambda>k. if k = 0 then ((1, 3), (0, 0)) else ((0, 1), (0, 0))) (1::nat)
   \<and> pickleball 6 2 1 (\<lambda>k. ((1, 3), (0, 0)))
       = pickleball 6 2 1 (\<lambda>k. if k = 0 then ((1, 3), (0, 0)) else ((0, 1), (0, 0)))"
  using pickleball_same_draws_same_schedule
          [of 1 "\<lambda>k. ((1, 3), (0, 0))"
              "\<lambda>k. if k = 0 then ((1, 3), (0, 0)) else ((0, 1), (0, 0))" 6 2]
  by simp

end
